theory Spec2Isabelle
  imports Main
begin

section \<open>Values, errors and the stream graph\<close>

text \<open>
  The engine is dynamically typed at run time: a value travelling through the graph is an
  opaque payload, an array of values (what a merge node receives) or a stream object (what
  a stream of streams emits). Stream objects and property cells live in a store and are
  named by their address.
\<close>

datatype 'a val = Prim 'a | Arr "'a val list" | Strm nat

datatype error = Error string | TypeError string | RangeError

text \<open>
  An observer is a callback registered with \<open>listen\<close>. The callbacks considered are the
  ones the public operations allow: pushing the received value on an array
  (\<open>observed.push(v)\<close>), pushing the current value of a property (\<open>observed.push(p())\<close>),
  throwing, injecting into a stream (\<open>drip(n)(w)\<close>), and the listener that \<open>shed\<close>
  installs. The first argument of \<open>Record\<close> and \<open>Sample\<close> tells the callbacks apart.
\<close>

datatype 'a observer =
    Record nat
  | Sample nat nat
  | Raise error
  | Inject nat "'a val"
  | Switch nat nat

text \<open>
  \<open>FlowingState\<close>: the thunk \<open>() => _f(v)\<close> is the pair of the observer and the value it is
  bound to, the thunk \<open>() => p(v)\<close> the pair of the cell and the value.
\<close>

record 'a FlowingState =
  waiting :: "(nat \<times> 'a val) list"
  observers :: "('a observer \<times> 'a val) list"
  updates :: "(nat \<times> 'a val) list"

text \<open>
  \<open>StreamState\<close>: the functor and the filter may read properties (as the functor built by
  \<open>accum\<close> does), so both receive the property cells; either may throw. The four sets are
  insertion-ordered JavaScript sets, kept as lists without duplicates. An entry of
  \<open>updates\<close> is the closure \<open>(_v) => v = _v\<close> made by \<open>hold\<close>, named by the cell it writes.
\<close>

record 'a StreamState =
  STREAM_FUNCTOR :: "(nat \<Rightarrow> 'a val) \<Rightarrow> 'a val \<Rightarrow> error + 'a val"
  STREAM_FILTER :: "((nat \<Rightarrow> 'a val) \<Rightarrow> 'a val \<Rightarrow> error + bool) option"
  "next" :: "nat list"
  lazyNext :: "nat list"
  updates :: "nat list"
  observers :: "'a observer list"

type_synonym 'a heap = "nat \<Rightarrow> 'a StreamState"

definition set_add :: "'x \<Rightarrow> 'x list \<Rightarrow> 'x list" where
  "set_add x xs = (if x \<in> set xs then xs else xs @ [x])"

definition set_delete :: "'x \<Rightarrow> 'x list \<Rightarrow> 'x list" where
  "set_delete x xs = removeAll x xs"

definition parrot :: "(nat \<Rightarrow> 'a val) \<Rightarrow> 'a val \<Rightarrow> error + 'a val" where
  "parrot c v = Inr v"

definition emptyFlowingState :: "'a FlowingState" where
  "emptyFlowingState = \<lparr>waiting = [], observers = [], updates = []\<rparr>"

definition streamToFlowingState :: "'a val \<Rightarrow> 'a StreamState \<Rightarrow> 'a FlowingState" where
  "streamToFlowingState v s =
     \<lparr>waiting = map (\<lambda>m. (m, v)) (lazyNext s),
      observers = map (\<lambda>f. (f, v)) (observers s),
      updates = map (\<lambda>p. (p, v)) (updates s)\<rparr>"

definition concatFlowingState :: "'a FlowingState \<Rightarrow> 'a FlowingState \<Rightarrow> 'a FlowingState" where
  "concatFlowingState a b =
     \<lparr>waiting = waiting a @ waiting b,
      observers = FlowingState.observers a @ FlowingState.observers b,
      updates = FlowingState.updates a @ FlowingState.updates b\<rparr>"

section \<open>Propagation\<close>

text \<open>
  \<open>Array.prototype.filter\<close> and \<open>Array.prototype.map\<close> with a callback that may throw: the
  first exception ends the traversal.
\<close>

fun filterE :: "('x \<Rightarrow> error + bool) \<Rightarrow> 'x list \<Rightarrow> error + 'x list" where
  "filterE p [] = Inr []"
| "filterE p (x # xs) =
     (case p x of
        Inl e \<Rightarrow> Inl e
      | Inr b \<Rightarrow> (case filterE p xs of
                   Inl e \<Rightarrow> Inl e
                 | Inr ys \<Rightarrow> Inr (if b then x # ys else ys)))"

fun mapE :: "('x \<Rightarrow> error + 'y) \<Rightarrow> 'x list \<Rightarrow> error + 'y list" where
  "mapE f [] = Inr []"
| "mapE f (x # xs) =
     (case f x of
        Inl e \<Rightarrow> Inl e
      | Inr y \<Rightarrow> (case mapE f xs of Inl e \<Rightarrow> Inl e | Inr ys \<Rightarrow> Inr (y # ys)))"

definition accepts :: "'a heap \<Rightarrow> (nat \<Rightarrow> 'a val) \<Rightarrow> 'a val \<Rightarrow> nat \<Rightarrow> error + bool" where
  "accepts h c r n = (case STREAM_FILTER (h n) of None \<Rightarrow> Inr True | Some p \<Rightarrow> p c r)"

text \<open>
  \<open>flow\<close> and \<open>flowLazy\<close> recurse along the edges of a mutable graph, which may be cyclic.
  The first argument is the number of nested calls the engine's call stack still admits: a
  call made when none is left raises \<open>RangeError\<close> at the call site, an ordinary exception.
  Inside \<open>flow\<close> the call site is within the \<open>try\<close> block, so the handler of the calling
  \<open>flow\<close> catches it; \<open>flowLazy\<close> has no handler and lets it escape.
\<close>

fun flow :: "nat \<Rightarrow> 'a heap \<Rightarrow> (nat \<Rightarrow> 'a val) \<Rightarrow> 'a val \<Rightarrow> nat \<Rightarrow> error + 'a FlowingState" where
  "flow 0 h c v s = Inl RangeError"
| "flow (Suc d) h c v s =
     (case (case STREAM_FUNCTOR (h s) c v of
              Inl e \<Rightarrow> Inl e
            | Inr r \<Rightarrow>
               (case filterE (accepts h c r) (next (h s)) of
                  Inl e \<Rightarrow> Inl e
                | Inr ns \<Rightarrow>
                   (case mapE (flow d h c r) ns of
                      Inl e \<Rightarrow> Inl e
                    | Inr fs \<Rightarrow> Inr (foldl concatFlowingState (streamToFlowingState r (h s)) fs))))
      of Inl e \<Rightarrow> Inr emptyFlowingState
       | Inr st \<Rightarrow> Inr st)"

text \<open>
  The \<open>Map\<close> built by \<open>flowLazy\<close>: keys in order of first arrival, each with the values that
  arrived for it, in arrival order.
\<close>

fun map_append :: "nat \<Rightarrow> 'v \<Rightarrow> (nat \<times> 'v list) list \<Rightarrow> (nat \<times> 'v list) list" where
  "map_append k v [] = [(k, [v])]"
| "map_append k v ((k', vs) # m) =
     (if k = k' then (k', vs @ [v]) # m else (k', vs) # map_append k v m)"

definition grouping :: "(nat \<times> 'v) list \<Rightarrow> (nat \<times> 'v list) list" where
  "grouping w = foldl (\<lambda>m (s, v). map_append s v m) [] w"

fun flowLazy :: "nat \<Rightarrow> 'a heap \<Rightarrow> (nat \<Rightarrow> 'a val) \<Rightarrow> 'a val \<Rightarrow> nat \<Rightarrow> error + 'a FlowingState" where
  "flowLazy 0 h c v s = Inl RangeError"
| "flowLazy (Suc d) h c v s =
     (case flow d h c v s of
        Inl e \<Rightarrow> Inl e
      | Inr r \<Rightarrow>
         if waiting r = [] then Inr r
         else (case mapE (\<lambda>(s, v). flowLazy d h c (Arr v) s) (grouping (waiting r)) of
                 Inl e \<Rightarrow> Inl e
               | Inr fs \<Rightarrow>
                  Inr (foldl concatFlowingState
                         \<lparr>waiting = [], observers = FlowingState.observers r,
                          updates = FlowingState.updates r\<rparr> fs)))"

section \<open>Injection\<close>

text \<open>
  The state of the program: the stream objects, the cells closed over by held properties,
  the flag \<open>drip.observerPhase\<close>, and what the \<open>Record\<close> and \<open>Sample\<close> callbacks have
  pushed so far, each entry with the tag of the callback. \<open>streams\<close> and \<open>props\<close> are the
  numbers of stream objects and cells allocated so far.
\<close>

record 'a state =
  nodes :: "'a heap"
  cells :: "nat \<Rightarrow> 'a val"
  observerPhase :: bool
  observed :: "(nat \<times> 'a val) list"
  streams :: nat
  props :: nat

text \<open>\<open>Set.prototype.forEach\<close> with a callback that changes the state and may throw.\<close>

fun forEach :: "('x \<Rightarrow> 's \<Rightarrow> 's \<times> (error + unit)) \<Rightarrow> 'x list \<Rightarrow> 's \<Rightarrow> 's \<times> (error + unit)" where
  "forEach f [] \<sigma> = (\<sigma>, Inr ())"
| "forEach f (x # xs) \<sigma> =
     (case f x \<sigma> of
        (\<sigma>', Inl e) \<Rightarrow> (\<sigma>', Inl e)
      | (\<sigma>', Inr u) \<Rightarrow> forEach f xs \<sigma>')"

text \<open>An update thunk \<open>() => p(v)\<close> of \<open>hold\<close> assigns the cell; it cannot throw.\<close>

definition run_update :: "nat \<times> 'a val \<Rightarrow> 'a state \<Rightarrow> 'a state" where
  "run_update t \<sigma> = \<sigma>\<lparr>cells := (cells \<sigma>)(fst t := snd t)\<rparr>"

definition run_updates :: "(nat \<times> 'a val) list \<Rightarrow> 'a state \<Rightarrow> 'a state" where
  "run_updates ts \<sigma> = foldl (\<lambda>\<sigma> t. run_update t \<sigma>) \<sigma> ts"

text \<open>
  The listener of \<open>shed\<close>, \<open>(s) => { p().next.delete(o); s.next.add(o) }\<close>, applied to the
  value \<open>w\<close>: reading \<open>next\<close> of a value that is not a stream object gives \<open>undefined\<close>, and
  the method call on it throws a \<open>TypeError\<close>.
\<close>

definition switch :: "nat \<Rightarrow> nat \<Rightarrow> 'a val \<Rightarrow> 'a state \<Rightarrow> 'a state \<times> (error + unit)" where
  "switch p o' w \<sigma> =
     (case cells \<sigma> p of
        Strm a \<Rightarrow>
          (let \<sigma>1 = \<sigma>\<lparr>nodes := (nodes \<sigma>)(a := (nodes \<sigma> a)\<lparr>next := set_delete o' (next (nodes \<sigma> a))\<rparr>)\<rparr>
           in case w of
                Strm b \<Rightarrow>
                  (\<sigma>1\<lparr>nodes := (nodes \<sigma>1)(b := (nodes \<sigma>1 b)\<lparr>next := set_add o' (next (nodes \<sigma>1 b))\<rparr>)\<rparr>,
                   Inr ())
              | _ \<Rightarrow> (\<sigma>1, Inl (TypeError ''next is undefined'')))
      | _ \<Rightarrow> (\<sigma>, Inl (TypeError ''next is undefined'')))"

text \<open>
  \<open>drip\<close>, and the callbacks it runs. As for \<open>flow\<close>, the first argument bounds the depth
  of the calls.
\<close>

fun drip :: "nat \<Rightarrow> 'a state \<Rightarrow> nat \<Rightarrow> 'a val \<Rightarrow> 'a state \<times> (error + 'a FlowingState)"
  and run_observer :: "nat \<Rightarrow> 'a observer \<times> 'a val \<Rightarrow> 'a state \<Rightarrow> 'a state \<times> (error + unit)"
where
  "drip 0 \<sigma> s v = (\<sigma>, Inl RangeError)"
| "drip (Suc d) \<sigma> s v =
     (if observerPhase \<sigma> then (\<sigma>, Inl (Error ''drip cannot be called during observer phase''))
      else
        (case flowLazy d (nodes \<sigma>) (cells \<sigma>) v s of
           Inl e \<Rightarrow> (\<sigma>\<lparr>observerPhase := False\<rparr>, Inr emptyFlowingState)
         | Inr st \<Rightarrow>
            (case forEach (run_observer d) (FlowingState.observers st) (\<sigma>\<lparr>observerPhase := True\<rparr>) of
               (\<sigma>1, Inl e) \<Rightarrow> (\<sigma>1\<lparr>observerPhase := False\<rparr>, Inr emptyFlowingState)
             | (\<sigma>1, Inr u) \<Rightarrow>
                (run_updates (FlowingState.updates st) (\<sigma>1\<lparr>observerPhase := False\<rparr>), Inr st))))"
| "run_observer d (Record t, w) \<sigma> = (\<sigma>\<lparr>observed := observed \<sigma> @ [(t, w)]\<rparr>, Inr ())"
| "run_observer d (Sample t p, w) \<sigma> = (\<sigma>\<lparr>observed := observed \<sigma> @ [(t, cells \<sigma> p)]\<rparr>, Inr ())"
| "run_observer d (Raise e, w) \<sigma> = (\<sigma>, Inl e)"
| "run_observer d (Inject n x, w) \<sigma> =
     (case drip d \<sigma> n x of
        (\<sigma>', Inl e) \<Rightarrow> (\<sigma>', Inl e)
      | (\<sigma>', Inr st) \<Rightarrow> (\<sigma>', Inr ()))"
| "run_observer d (Switch p o', w) \<sigma> = switch p o' w \<sigma>"

section \<open>Construction, properties and teardown\<close>

text \<open>
  Each operation takes the state and returns what the source returns together with the new
  state. The checks \<open>typeof f !== 'function'\<close> and \<open>!isStream(s)\<close> cannot fail here: the
  types admit only functions and stream objects.
\<close>

definition stream :: "((nat \<Rightarrow> 'a val) \<Rightarrow> 'a val \<Rightarrow> error + 'a val) \<Rightarrow> 'a state \<Rightarrow> nat \<times> 'a state" where
  "stream f \<sigma> =
     (streams \<sigma>,
      \<sigma>\<lparr>nodes := (nodes \<sigma>)(streams \<sigma> :=
            \<lparr>STREAM_FUNCTOR = f, STREAM_FILTER = None, next = [], lazyNext = [],
             updates = [], observers = []\<rparr>),
        streams := Suc (streams \<sigma>)\<rparr>)"

definition pipe :: "nat \<Rightarrow> ((nat \<Rightarrow> 'a val) \<Rightarrow> 'a val \<Rightarrow> error + 'a val) \<Rightarrow> 'a state \<Rightarrow> nat \<times> 'a state" where
  "pipe s f \<sigma> =
     (case stream f \<sigma> of
        (n, \<sigma>1) \<Rightarrow>
          (n, \<sigma>1\<lparr>nodes := (nodes \<sigma>1)(s := (nodes \<sigma>1 s)\<lparr>next := set_add n (next (nodes \<sigma>1 s))\<rparr>)\<rparr>))"

definition filter' :: "nat \<Rightarrow> ((nat \<Rightarrow> 'a val) \<Rightarrow> 'a val \<Rightarrow> error + bool) \<Rightarrow> 'a state \<Rightarrow> nat \<times> 'a state" where
  "filter' s f \<sigma> =
     (case pipe s parrot \<sigma> of
        (n, \<sigma>1) \<Rightarrow> (n, \<sigma>1\<lparr>nodes := (nodes \<sigma>1)(n := (nodes \<sigma>1 n)\<lparr>STREAM_FILTER := Some f\<rparr>)\<rparr>))"

text \<open>
  \<open>v.reduce(f)\<close> without an initial value: the first element starts the accumulator. The
  functor of a merge node tests \<open>!v.length\<close> first, which holds of the empty array and of a
  value that has no \<open>length\<close>.
\<close>

fun reduce :: "('a val \<Rightarrow> 'a val \<Rightarrow> error + 'a val) \<Rightarrow> 'a val \<Rightarrow> 'a val list \<Rightarrow> error + 'a val" where
  "reduce f a [] = Inr a"
| "reduce f a (x # xs) = (case f a x of Inl e \<Rightarrow> Inl e | Inr a' \<Rightarrow> reduce f a' xs)"

definition mergeFunctor :: "('a val \<Rightarrow> 'a val \<Rightarrow> error + 'a val) \<Rightarrow> (nat \<Rightarrow> 'a val) \<Rightarrow> 'a val \<Rightarrow> error + 'a val" where
  "mergeFunctor f c v =
     (case v of
        Arr (x # xs) \<Rightarrow> reduce f x xs
      | _ \<Rightarrow> Inl (Error ''No values have been merged yet.''))"

definition merge :: "nat list \<Rightarrow> ('a val \<Rightarrow> 'a val \<Rightarrow> error + 'a val) \<Rightarrow> 'a state \<Rightarrow> nat \<times> 'a state" where
  "merge ss f \<sigma> =
     (case stream (mergeFunctor f) \<sigma> of
        (m, \<sigma>1) \<Rightarrow>
          (m, foldl (\<lambda>\<sigma> s. \<sigma>\<lparr>nodes := (nodes \<sigma>)(s := (nodes \<sigma> s)\<lparr>lazyNext := set_add m (lazyNext (nodes \<sigma> s))\<rparr>)\<rparr>)
                \<sigma>1 ss))"

text \<open>
  \<open>hold\<close> allocates the cell for the captured variable \<open>v\<close> and returns the reader
  \<open>() => v\<close>, which is the address of the cell together with \<open>reader\<close>.
\<close>

definition hold :: "nat \<Rightarrow> 'a val \<Rightarrow> 'a state \<Rightarrow> nat \<times> 'a state" where
  "hold s v \<sigma> =
     (props \<sigma>,
      \<sigma>\<lparr>cells := (cells \<sigma>)(props \<sigma> := v),
        props := Suc (props \<sigma>),
        nodes := (nodes \<sigma>)(s := (nodes \<sigma> s)\<lparr>updates := set_add (props \<sigma>) (updates (nodes \<sigma> s))\<rparr>)\<rparr>)"

definition reader :: "nat \<Rightarrow> 'a state \<Rightarrow> 'a val" where
  "reader p \<sigma> = cells \<sigma> p"

definition listen :: "nat \<Rightarrow> 'a observer \<Rightarrow> 'a state \<Rightarrow> 'a state" where
  "listen s f \<sigma> =
     \<sigma>\<lparr>nodes := (nodes \<sigma>)(s := (nodes \<sigma> s)\<lparr>observers := set_add f (observers (nodes \<sigma> s))\<rparr>)\<rparr>"

definition shed :: "nat \<Rightarrow> 'a state \<Rightarrow> nat \<times> 'a state" where
  "shed ss \<sigma> =
     (case stream parrot \<sigma> of
        (o', \<sigma>1) \<Rightarrow>
          (case hold ss (Strm o') \<sigma>1 of
             (p, \<sigma>2) \<Rightarrow> (o', listen ss (Switch p o') \<sigma>2)))"

text \<open>
  \<open>clear\<close> has no handler: an exception of a nested call leaves the objects cleared so far
  as they are and ends the call.
\<close>

fun clear :: "nat \<Rightarrow> nat \<Rightarrow> 'a heap \<Rightarrow> 'a heap \<times> (error + unit)" where
  "clear 0 s h = (h, Inl RangeError)"
| "clear (Suc d) s h =
     (case forEach (clear d) (next (h s)) h of
        (h', Inl e) \<Rightarrow> (h', Inl e)
      | (h', Inr u) \<Rightarrow>
          (h'(s := (h' s)\<lparr>next := [], lazyNext := [], updates := [], observers := []\<rparr>), Inr ()))"

section \<open>Notions used in the statements\<close>

text \<open>
  The \<open>next\<close> edges of a graph and the nodes reachable along them from a node, the node
  itself included.
\<close>

definition edges :: "'a heap \<Rightarrow> (nat \<times> nat) set" where
  "edges h = {(a, b). b \<in> set (next (h a))}"

definition descendants :: "'a heap \<Rightarrow> nat \<Rightarrow> nat set" where
  "descendants h n = (edges h)\<^sup>* `` {n}"

text \<open>
  What \<open>clear\<close> leaves of one stream object, the graph with a set of objects cleared, and
  a set of objects that contains the children of its members. They serve the proof about
  \<open>clear\<close>.
\<close>

definition cleared :: "'a StreamState \<Rightarrow> 'a StreamState" where
  "cleared s = s\<lparr>next := [], lazyNext := [], updates := [], observers := []\<rparr>"

definition clr :: "nat set \<Rightarrow> 'a heap \<Rightarrow> 'a heap" where
  "clr X h = (\<lambda>m. if m \<in> X then cleared (h m) else h m)"

definition closed :: "nat set \<Rightarrow> 'a heap \<Rightarrow> bool" where
  "closed X h = (\<forall>a \<in> X. set (next (h a)) \<subseteq> X)"
















section \<open>Example programs\<close>

text \<open>
  The state of a program that has not yet created a stream, and small programs written with
  the public operations. They are the concrete inputs at which the theorems below are
  exercised.
\<close>

definition initial :: "int state" where
  "initial =
     \<lparr>nodes = (\<lambda>n. \<lparr>STREAM_FUNCTOR = parrot, STREAM_FILTER = None, next = [], lazyNext = [],
                     updates = [], observers = []\<rparr>),
      cells = (\<lambda>p. Prim 0), observerPhase = False, observed = [], streams = 0, props = 0\<rparr>"

definition boom :: "(nat \<Rightarrow> int val) \<Rightarrow> int val \<Rightarrow> error + int val" where
  "boom c v = Inl (Error ''boom'')"

definition add :: "int val \<Rightarrow> int val \<Rightarrow> error + int val" where
  "add a b =
     (case a of
        Prim x \<Rightarrow> (case b of Prim y \<Rightarrow> Inr (Prim (x + y)) | _ \<Rightarrow> Inl (TypeError ''not a number''))
      | _ \<Rightarrow> Inl (TypeError ''not a number''))"

definition pair :: "int val \<Rightarrow> int val \<Rightarrow> error + int val" where
  "pair a b = Inr (Arr [a, b])"

definition wrap :: "(nat \<Rightarrow> int val) \<Rightarrow> int val \<Rightarrow> error + int val" where
  "wrap c v = Inr (Arr [v])"

text \<open>
  \<open>p = stream(); listen(p)(..); n = pipe(p)(() => { throw .. }); m = pipe(p)(v => v);
  listen(m)(..)\<close>
\<close>

definition throwing_child :: "int state" where
  "throwing_child =
     (case stream parrot initial of (p, \<sigma>1) \<Rightarrow>
      case pipe p boom (listen p (Record 0) \<sigma>1) of (n, \<sigma>2) \<Rightarrow>
      case pipe p parrot \<sigma>2 of (m, \<sigma>3) \<Rightarrow> listen m (Record 1) \<sigma>3)"

text \<open>
  \<open>p = stream(); listen(p)(..); m = pipe(p)(v => v); listen(m)(..);
  k = filter(p)(() => { throw .. })\<close>
\<close>

definition throwing_filter :: "int state" where
  "throwing_filter =
     (case stream parrot initial of (p, \<sigma>1) \<Rightarrow>
      case pipe p parrot (listen p (Record 0) \<sigma>1) of (m, \<sigma>2) \<Rightarrow>
      case filter' p (\<lambda>c v. Inl (Error ''boom'')) (listen m (Record 1) \<sigma>2) of (k, \<sigma>3) \<Rightarrow> \<sigma>3)"

text \<open>
  \<open>s = stream(); listen(s)(..); q = hold(s)(0); m1 = merge([s])(add); m2 = merge([m1])(add)\<close>
\<close>

definition merge_chain :: "int state" where
  "merge_chain =
     (case stream parrot initial of (s, \<sigma>1) \<Rightarrow>
      case hold s (Prim 0) (listen s (Record 0) \<sigma>1) of (q, \<sigma>2) \<Rightarrow>
      case merge [s] add \<sigma>2 of (m1, \<sigma>3) \<Rightarrow>
      case merge [m1] add \<sigma>3 of (m2, \<sigma>4) \<Rightarrow> \<sigma>4)"

text \<open>
  \<open>s = stream(); q = hold(s)(0); listen(s)(..); listen(s)(() => { throw .. }); listen(s)(..)\<close>
\<close>

definition throwing_observer :: "int state" where
  "throwing_observer =
     (case stream parrot initial of (s, \<sigma>1) \<Rightarrow>
      case hold s (Prim 0) \<sigma>1 of (q, \<sigma>2) \<Rightarrow>
        listen s (Record 2) (listen s (Raise (Error ''boom'')) (listen s (Record 1) \<sigma>2)))"

text \<open>
  \<open>s = stream(); t = stream(); listen(s)(..); listen(s)(() => drip(t)(9)); listen(s)(..);
  listen(t)(..)\<close>
\<close>

definition reentrant_observer :: "int state" where
  "reentrant_observer =
     (case stream parrot initial of (s, \<sigma>1) \<Rightarrow>
      case stream parrot \<sigma>1 of (t, \<sigma>2) \<Rightarrow>
        listen t (Record 3) (listen s (Record 2) (listen s (Inject t (Prim 9)) (listen s (Record 1) \<sigma>2))))"

text \<open>
  \<open>s = stream(); q = hold(s)(7); listen(s)(() => observed.push(q())); listen(s)(..)\<close>
\<close>

definition held :: "int state" where
  "held =
     (case stream parrot initial of (s, \<sigma>1) \<Rightarrow>
      case hold s (Prim 7) \<sigma>1 of (q, \<sigma>2) \<Rightarrow> listen s (Record 2) (listen s (Sample 1 q) \<sigma>2))"

text \<open>\<open>s = stream(v => [v]); q = hold(s)(0)\<close>\<close>

definition held_wrap :: "int state" where
  "held_wrap =
     (case stream wrap initial of (s, \<sigma>1) \<Rightarrow>
      case hold s (Prim 0) \<sigma>1 of (q, \<sigma>2) \<Rightarrow> \<sigma>2)"

text \<open>
  \<open>s = stream(); m1 = merge([s])(add); m2 = merge([s])(add); m3 = merge([m1, m2])(add);
  listen(m3)(..)\<close>
\<close>

definition chained_merges :: "int state" where
  "chained_merges =
     (case stream parrot initial of (s, \<sigma>1) \<Rightarrow>
      case merge [s] add \<sigma>1 of (m1, \<sigma>2) \<Rightarrow>
      case merge [s] add \<sigma>2 of (m2, \<sigma>3) \<Rightarrow>
      case merge [m1, m2] add \<sigma>3 of (m3, \<sigma>4) \<Rightarrow> listen m3 (Record 7) \<sigma>4)"

text \<open>
  \<open>s = stream(); a = pipe(s)(v => v); b = pipe(s)(v => [v]); m = merge([a, b])((x, y) => [x, y]);
  listen(m)(..)\<close>
\<close>

definition diamond_merge :: "int state" where
  "diamond_merge =
     (case stream parrot initial of (s, \<sigma>1) \<Rightarrow>
      case pipe s parrot \<sigma>1 of (a, \<sigma>2) \<Rightarrow>
      case pipe s wrap \<sigma>2 of (b, \<sigma>3) \<Rightarrow>
      case merge [a, b] pair \<sigma>3 of (m, \<sigma>4) \<Rightarrow> listen m (Record 7) \<sigma>4)"

text \<open>
  \<open>s = stream(); c = pipe(s)(v => v); listen(c)(..); q = hold(c)(0); m = merge([s])(add);
  listen(m)(..)\<close>
\<close>

definition lazy_clear :: "int state" where
  "lazy_clear =
     (case stream parrot initial of (s, \<sigma>1) \<Rightarrow>
      case pipe s parrot \<sigma>1 of (c, \<sigma>2) \<Rightarrow>
      case hold c (Prim 0) (listen c (Record 1) \<sigma>2) of (q, \<sigma>3) \<Rightarrow>
      case merge [s] add \<sigma>3 of (m, \<sigma>4) \<Rightarrow> listen m (Record 2) \<sigma>4)"










section \<open>Auxiliary facts\<close>

subsection \<open>Flowing states and traversals\<close>

lemma concat_empty_right [simp]: "concatFlowingState a emptyFlowingState = a"
  by (simp add: concatFlowingState_def emptyFlowingState_def)

lemma concat_empty_left [simp]: "concatFlowingState emptyFlowingState a = a"
  by (simp add: concatFlowingState_def emptyFlowingState_def)

lemma flow_Suc_returns: "\<exists>st. flow (Suc d) h c v s = Inr st"
  by (simp split: sum.splits)

lemma mapE_Inr_map: "(\<And>x. x \<in> set xs \<Longrightarrow> f x = Inr (g x)) \<Longrightarrow> mapE f xs = Inr (map g xs)"
  by (induction xs) auto

lemma mapE_flow_Suc: "mapE (flow (Suc d) h c r) ns = Inr (map (\<lambda>m. projr (flow (Suc d) h c r m)) ns)"
proof (rule mapE_Inr_map)
  fix x
  obtain st where "flow (Suc d) h c r x = Inr st" using flow_Suc_returns by blast
  then show "flow (Suc d) h c r x = Inr (projr (flow (Suc d) h c r x))" by simp
qed

lemma flow_step:
  assumes "STREAM_FUNCTOR (h p) c v = Inr r" and "filterE (accepts h c r) (next (h p)) = Inr ns"
  shows "flow (Suc (Suc d)) h c v p =
           Inr (foldl concatFlowingState (streamToFlowingState r (h p))
                  (map (\<lambda>m. projr (flow (Suc d) h c r m)) ns))"
  using assms mapE_flow_Suc [of d h c r ns] by simp

lemma foldl_concat_skip_empty:
  "(\<And>x. x \<in> set xs \<Longrightarrow> \<not> P x \<Longrightarrow> g x = emptyFlowingState) \<Longrightarrow>
   foldl concatFlowingState a (map g xs) = foldl concatFlowingState a (map g (filter P xs))"
  by (induction xs arbitrary: a) auto

lemma filterE_throws: "k \<in> set xs \<Longrightarrow> p k = Inl e \<Longrightarrow> \<exists>e'. filterE p xs = Inl e'"
  by (induction xs) (auto split: sum.splits)

lemma functor_throw: "STREAM_FUNCTOR (h n) c r = Inl e \<Longrightarrow> flow (Suc d) h c r n = Inr emptyFlowingState"
  by simp

lemma merge_functor_kept:
  "STREAM_FUNCTOR (nodes (foldl (\<lambda>\<sigma> s. \<sigma>\<lparr>nodes := (nodes \<sigma>)(s := (nodes \<sigma> s)\<lparr>lazyNext := F \<sigma> s\<rparr>)\<rparr>) \<sigma>1 ss) m)
     = STREAM_FUNCTOR (nodes \<sigma>1 m)"
  by (induction ss arbitrary: \<sigma>1) auto

lemma merge_node_functor:
  "STREAM_FUNCTOR (nodes (snd (merge ss f \<sigma>)) (fst (merge ss f \<sigma>))) = mergeFunctor f"
  by (simp add: merge_def stream_def merge_functor_kept)

lemma reduce_total: "reduce (\<lambda>a b. Inr (g a b)) x xs = Inr (foldl g x xs)"
  by (induction xs arbitrary: x) auto

lemma filterE_cong': "(\<And>x. x \<in> set xs \<Longrightarrow> p x = q x) \<Longrightarrow> filterE p xs = filterE q xs"
  by (induction xs) (auto split: sum.splits)

lemma mapE_cong': "(\<And>x. x \<in> set xs \<Longrightarrow> f x = g x) \<Longrightarrow> mapE f xs = mapE g xs"
  by (induction xs) (auto split: sum.splits)

lemma filterE_subset: "filterE p xs = Inr ys \<Longrightarrow> set ys \<subseteq> set xs"
  by (induction xs arbitrary: ys) (auto split: sum.splits if_splits)

lemma filterE_removeAll:
  "filterE p xs = Inr ys \<Longrightarrow> filterE p (removeAll n xs) = Inr (removeAll n ys)"
  by (induction xs arbitrary: ys) (auto split: sum.splits if_splits)

lemma flow_agree:
  assumes rank: "\<And>a b. b \<in> set (next (h a)) \<Longrightarrow> rk b < rk a"
    and agree: "\<And>m. rk m < R \<Longrightarrow> h' m = h m"
  shows "rk s < (R::nat) \<Longrightarrow> flow d h' c v s = flow d h c v s"
proof (induction d arbitrary: s v)
  case 0
  show ?case by simp
next
  case (Suc d)
  have hs: "h' s = h s" using agree Suc.prems by simp
  have kids: "\<And>k. k \<in> set (next (h s)) \<Longrightarrow> rk k < R"
    using rank Suc.prems by fastforce
  have acc: "\<And>r. filterE (accepts h' c r) (next (h s)) = filterE (accepts h c r) (next (h s))"
    by (rule filterE_cong') (simp add: accepts_def agree kids)
  have fl: "\<And>r ns. set ns \<subseteq> set (next (h s)) \<Longrightarrow> mapE (flow d h' c r) ns = mapE (flow d h c r) ns"
    by (rule mapE_cong') (use Suc.IH kids in auto)
  show ?case
  proof (cases "STREAM_FUNCTOR (h s) c v")
    case (Inl e)
    then show ?thesis by (simp add: hs)
  next
    case (Inr r)
    show ?thesis
    proof (cases "filterE (accepts h c r) (next (h s))")
      case (Inl e)
      with Inr show ?thesis by (simp add: hs acc)
    next
      case f: (Inr ns)
      then have "set ns \<subseteq> set (next (h s))" by (rule filterE_subset)
      with Inr f fl [of ns r] show ?thesis by (simp add: hs acc cong: sum.case_cong)
    qed
  qed
qed

subsection \<open>The observer phase and the update phase\<close>

lemma drip_guarded: "observerPhase \<sigma> \<Longrightarrow> \<exists>e. drip d \<sigma> n w = (\<sigma>, Inl e)"
  by (cases d) auto

lemma switch_keeps:
  "switch p o' w \<sigma> = (\<sigma>', r) \<Longrightarrow>
     observerPhase \<sigma>' = observerPhase \<sigma> \<and> cells \<sigma>' = cells \<sigma> \<and> observed \<sigma>' = observed \<sigma>"
  by (auto simp: switch_def Let_def split: val.splits)

lemma run_observer_guarded:
  assumes "observerPhase \<sigma>" and "run_observer d t \<sigma> = (\<sigma>', r)"
  shows "observerPhase \<sigma>' \<and> cells \<sigma>' = cells \<sigma>"
proof (cases t)
  case (Pair f w)
  show ?thesis
  proof (cases f)
    case (Inject n x)
    obtain e where "drip d \<sigma> n x = (\<sigma>, Inl e)" using drip_guarded [OF assms(1)] by blast
    with assms Pair Inject show ?thesis by auto
  next
    case (Switch p o')
    with assms Pair show ?thesis using switch_keeps [of p o' w \<sigma> \<sigma>' r] by auto
  qed (use assms Pair in auto)
qed

lemma forEach_guarded:
  "observerPhase \<sigma> \<Longrightarrow> forEach (run_observer d) ts \<sigma> = (\<sigma>', r) \<Longrightarrow>
     observerPhase \<sigma>' \<and> cells \<sigma>' = cells \<sigma>"
proof (induction ts arbitrary: \<sigma>)
  case Nil
  then show ?case by simp
next
  case (Cons t ts)
  obtain \<sigma>1 r1 where s: "run_observer d t \<sigma> = (\<sigma>1, r1)" by (cases "run_observer d t \<sigma>")
  have g: "observerPhase \<sigma>1 \<and> cells \<sigma>1 = cells \<sigma>"
    using run_observer_guarded [OF Cons.prems(1) s] .
  show ?case
  proof (cases r1)
    case (Inl e)
    with Cons.prems s g show ?thesis by simp
  next
    case (Inr u)
    with Cons.prems s have "forEach (run_observer d) ts \<sigma>1 = (\<sigma>', r)" by simp
    with Cons.IH [of \<sigma>1] g show ?thesis by simp
  qed
qed

lemma forEach_append:
  "forEach f (xs @ ys) \<sigma> =
     (case forEach f xs \<sigma> of (\<sigma>', Inl e) \<Rightarrow> (\<sigma>', Inl e) | (\<sigma>', Inr u) \<Rightarrow> forEach f ys \<sigma>')"
  by (induction xs arbitrary: \<sigma>) (auto split: prod.splits sum.splits)

lemma forEach_throw_split:
  "forEach f xs \<sigma> = (\<sigma>1, Inl e) \<Longrightarrow>
     \<exists>pre x post \<sigma>0. xs = pre @ x # post \<and> forEach f pre \<sigma> = (\<sigma>0, Inr ()) \<and> f x \<sigma>0 = (\<sigma>1, Inl e)"
proof (induction xs arbitrary: \<sigma>)
  case Nil
  then show ?case by simp
next
  case (Cons x xs)
  obtain \<sigma>2 r2 where s: "f x \<sigma> = (\<sigma>2, r2)" by (cases "f x \<sigma>")
  show ?case
  proof (cases r2)
    case (Inl e2)
    with Cons.prems s have "f x \<sigma> = (\<sigma>1, Inl e)" by simp
    then have "x # xs = [] @ x # xs \<and> forEach f [] \<sigma> = (\<sigma>, Inr ()) \<and> f x \<sigma> = (\<sigma>1, Inl e)" by simp
    then show ?thesis by blast
  next
    case (Inr u)
    with Cons.prems s have "forEach f xs \<sigma>2 = (\<sigma>1, Inl e)" by simp
    from Cons.IH [OF this] obtain pre y post \<sigma>0 where
      p: "xs = pre @ y # post" "forEach f pre \<sigma>2 = (\<sigma>0, Inr ())" "f y \<sigma>0 = (\<sigma>1, Inl e)" by blast
    have "x # xs = (x # pre) @ y # post \<and> forEach f (x # pre) \<sigma> = (\<sigma>0, Inr ()) \<and> f y \<sigma>0 = (\<sigma>1, Inl e)"
      using p s Inr by simp
    then show ?thesis by blast
  qed
qed

lemma run_updates_keeps:
  "observerPhase (run_updates ts \<sigma>) = observerPhase \<sigma> \<and> nodes (run_updates ts \<sigma>) = nodes \<sigma> \<and>
   observed (run_updates ts \<sigma>) = observed \<sigma> \<and> streams (run_updates ts \<sigma>) = streams \<sigma> \<and>
   props (run_updates ts \<sigma>) = props \<sigma>"
  unfolding run_updates_def by (induction ts arbitrary: \<sigma>) (simp_all add: run_update_def)

lemma drip_unguarded_returns:
  "\<not> observerPhase \<sigma> \<Longrightarrow> \<not> observerPhase (fst (drip (Suc d) \<sigma> s v)) \<and> (\<exists>r. snd (drip (Suc d) \<sigma> s v) = Inr r)"
  by (auto simp: run_updates_keeps split: sum.splits prod.splits)

subsection \<open>The grouping of pending pairs\<close>

lemma grouping_snoc: "grouping (w @ [(s, v)]) = map_append s v (grouping w)"
  by (simp add: grouping_def)

lemma map_append_keys:
  "map fst (map_append k v m) = (if k \<in> set (map fst m) then map fst m else map fst m @ [k])"
  by (induction m) force+

lemma map_append_lookup:
  "distinct (map fst m) \<Longrightarrow>
   map_of (map_append k v m) = (map_of m)(k \<mapsto> (case map_of m k of None \<Rightarrow> [v] | Some vs \<Rightarrow> vs @ [v]))"
proof (induction m)
  case Nil
  show ?case by simp
next
  case (Cons a m)
  obtain k' vs where a: "a = (k', vs)" by (cases a)
  show ?case
  proof (cases "k = k'")
    case True
    then show ?thesis using a by (auto simp: fun_eq_iff)
  next
    case False
    with Cons a show ?thesis by (auto simp: fun_upd_twist)
  qed
qed

lemma first_arrival_snoc:
  "rev (remdups (rev (xs @ [k]))) = (if k \<in> set xs then rev (remdups (rev xs)) else rev (remdups (rev xs)) @ [k])"
  by simp

lemma grouping_keys: "map fst (grouping w) = rev (remdups (rev (map fst w)))"
proof (induction w rule: rev_induct)
  case Nil
  show ?case by (simp add: grouping_def)
next
  case (snoc x w)
  obtain s v where x: "x = (s, v)" by (cases x)
  have "set (map fst (grouping w)) = set (map fst w)"
    by (simp only: snoc.IH set_rev set_remdups)
  then show ?case
    using snoc.IH by (simp add: x grouping_snoc map_append_keys del: set_map)
qed

lemma grouping_distinct: "distinct (map fst (grouping w))"
  by (simp add: grouping_keys)

lemma grouping_lookup:
  "map_of (grouping w) m =
     (if m \<in> fst ` set w then Some (map snd (filter (\<lambda>p. fst p = m) w)) else None)"
proof (induction w rule: rev_induct)
  case Nil
  show ?case by (simp add: grouping_def)
next
  case (snoc x w)
  obtain s v where x: "x = (s, v)" by (cases x)
  show ?case
    using snoc.IH
    by (auto simp: x grouping_snoc map_append_lookup [OF grouping_distinct] filter_empty_conv image_iff)
qed

lemma grouping_values:
  "(m, vs) \<in> set (grouping w) \<Longrightarrow> vs = map snd (filter (\<lambda>p. fst p = m) w) \<and> vs \<noteq> []"
proof -
  assume a: "(m, vs) \<in> set (grouping w)"
  then have "map_of (grouping w) m = Some vs"
    by (simp add: map_of_eq_Some_iff [OF grouping_distinct])
  then have m: "m \<in> fst ` set w" and v: "vs = map snd (filter (\<lambda>p. fst p = m) w)"
    by (simp_all add: grouping_lookup split: if_splits)
  from m obtain x where "x \<in> set w" "fst x = m" by auto
  then have "filter (\<lambda>p. fst p = m) w \<noteq> []" by (auto simp: filter_empty_conv)
  with v show ?thesis by simp
qed

lemma flowLazy_unfold:
  "flow d h c v s = Inr r \<Longrightarrow> waiting r \<noteq> [] \<Longrightarrow>
   flowLazy (Suc d) h c v s =
     (case mapE (\<lambda>(m, vs). flowLazy d h c (Arr vs) m) (grouping (waiting r)) of
        Inl e \<Rightarrow> Inl e
      | Inr fs \<Rightarrow> Inr (foldl concatFlowingState
                        \<lparr>waiting = [], observers = FlowingState.observers r,
                         updates = FlowingState.updates r\<rparr> fs))"
  by simp

lemma flowLazy_leaf:
  "waiting (projr (flow (Suc d) h c v s)) = [] \<Longrightarrow>
   flowLazy (Suc (Suc d)) h c v s = Inr (projr (flow (Suc d) h c v s))"
proof -
  assume a: "waiting (projr (flow (Suc d) h c v s)) = []"
  obtain st where st: "flow (Suc d) h c v s = Inr st" using flow_Suc_returns by blast
  with a show ?thesis by (simp del: flow.simps)
qed

subsection \<open>Teardown\<close>

lemma cleared_idem [simp]: "cleared (cleared s) = cleared s"
  by (simp add: cleared_def)

lemma descendants_self: "n \<in> descendants h n"
  by (simp add: descendants_def)

lemma descendants_step: "descendants h s = insert s (\<Union>c \<in> set (next (h s)). descendants h c)"
proof
  show "descendants h s \<subseteq> insert s (\<Union>c \<in> set (next (h s)). descendants h c)"
  proof
    fix m assume "m \<in> descendants h s"
    then have "(s, m) \<in> (edges h)\<^sup>*" by (simp add: descendants_def)
    then show "m \<in> insert s (\<Union>c \<in> set (next (h s)). descendants h c)"
    proof (cases rule: converse_rtranclE)
      case base
      then show ?thesis by simp
    next
      case (step c)
      then have "c \<in> set (next (h s))" by (simp add: edges_def)
      with step show ?thesis by (auto simp: descendants_def)
    qed
  qed
  show "insert s (\<Union>c \<in> set (next (h s)). descendants h c) \<subseteq> descendants h s"
  proof
    fix m assume "m \<in> insert s (\<Union>c \<in> set (next (h s)). descendants h c)"
    then consider "m = s" | c where "c \<in> set (next (h s))" "(c, m) \<in> (edges h)\<^sup>*"
      by (auto simp: descendants_def)
    then show "m \<in> descendants h s"
    proof cases
      case 1
      then show ?thesis by (simp add: descendants_def)
    next
      case 2
      then have "(s, c) \<in> edges h" by (simp add: edges_def)
      with 2 show ?thesis by (auto simp: descendants_def intro: converse_rtrancl_into_rtrancl)
    qed
  qed
qed

lemma descendants_closed: "a \<in> descendants h s \<Longrightarrow> b \<in> set (next (h a)) \<Longrightarrow> b \<in> descendants h s"
  by (auto simp: descendants_def edges_def intro: rtrancl_into_rtrancl)

lemma closed_Un_descendants: "closed X h \<Longrightarrow> closed (X \<union> descendants h s) h"
  by (auto simp: closed_def dest: descendants_closed)

lemma closed_descendants_subset:
  assumes "closed X h" and "s \<in> X"
  shows "descendants h s \<subseteq> X"
proof
  fix m assume "m \<in> descendants h s"
  then have "(s, m) \<in> (edges h)\<^sup>*" by (simp add: descendants_def)
  then show "m \<in> X"
    by (induction rule: rtrancl_induct) (use assms in \<open>auto simp: closed_def edges_def\<close>)
qed

lemma forEach_clear_clr:
  assumes IH: "\<And>s X h'. closed X h \<Longrightarrow> clear d s (clr X h) = (h', Inr ()) \<Longrightarrow> h' = clr (X \<union> descendants h s) h"
  shows "closed X h \<Longrightarrow> forEach (clear d) cs (clr X h) = (h', Inr ()) \<Longrightarrow>
         h' = clr (X \<union> (\<Union>c \<in> set cs. descendants h c)) h"
proof (induction cs arbitrary: X)
  case Nil
  then show ?case by simp
next
  case (Cons c cs)
  obtain h1 r1 where c: "clear d c (clr X h) = (h1, r1)" by (cases "clear d c (clr X h)")
  with Cons.prems(2) have r1: "r1 = Inr ()" by (cases r1) auto
  with c Cons.prems(1) have h1: "h1 = clr (X \<union> descendants h c) h" using IH by blast
  from c r1 Cons.prems(2) have "forEach (clear d) cs h1 = (h', Inr ())" by simp
  with h1 Cons.IH [OF closed_Un_descendants [OF Cons.prems(1)], of c]
  have "h' = clr (X \<union> descendants h c \<union> (\<Union>c \<in> set cs. descendants h c)) h" by simp
  then show ?case by (simp add: Un_assoc)
qed

lemma clear_clr:
  "closed X h \<Longrightarrow> clear d s (clr X h) = (h', Inr ()) \<Longrightarrow> h' = clr (X \<union> descendants h s) h"
proof (induction d arbitrary: s X h')
  case 0
  then show ?case by simp
next
  case (Suc d)
  obtain h1 r1 where f: "forEach (clear d) (next (clr X h s)) (clr X h) = (h1, r1)"
    by (cases "forEach (clear d) (next (clr X h s)) (clr X h)")
  with Suc.prems(2) have r1: "r1 = Inr ()" by (cases r1) auto
  with f Suc.prems(2) have h': "h' = h1(s := cleared (h1 s))" by (simp add: cleared_def)
  show ?case
  proof (cases "s \<in> X")
    case True
    then have "next (clr X h s) = []" by (simp add: clr_def cleared_def)
    with f have "h1 = clr X h" by simp
    with h' True have "h' = clr X h" by (auto simp: clr_def)
    moreover have "X \<union> descendants h s = X"
      using closed_descendants_subset [OF Suc.prems(1) True] by blast
    ultimately show ?thesis by simp
  next
    case False
    then have "next (clr X h s) = next (h s)" by (simp add: clr_def)
    with f r1 have "forEach (clear d) (next (h s)) (clr X h) = (h1, Inr ())" by simp
    then have h1: "h1 = clr (X \<union> (\<Union>c \<in> set (next (h s)). descendants h c)) h"
      using forEach_clear_clr [OF Suc.IH Suc.prems(1)] by blast
    have "cleared (h1 s) = cleared (h s)" by (simp add: h1 clr_def)
    with h' h1 have "h' = clr (insert s (X \<union> (\<Union>c \<in> set (next (h s)). descendants h c))) h"
      by (auto simp: clr_def)
    then show ?thesis by (simp add: descendants_step [of h s])
  qed
qed

lemma clear_result:
  assumes "clear d n h = (h', Inr ())"
  shows "h' = clr (descendants h n) h"
proof -
  have "clr {} h = h" by (simp add: clr_def)
  with assms clear_clr [of "{}" h d n h'] show ?thesis by (simp add: closed_def)
qed

lemma forEach_clear_shrinks:
  fixes h :: "'a heap"
  assumes IH: "\<forall>s (h :: 'a heap) h' r. clear d s h = (h', r) \<longrightarrow> (\<forall>m. set (next (h' m)) \<subseteq> set (next (h m)))"
  shows "forEach (clear d) cs h = (h', r) \<Longrightarrow> (\<forall>m. set (next (h' m)) \<subseteq> set (next (h m)))"
proof (induction cs arbitrary: h)
  case Nil
  then show ?case by simp
next
  case (Cons c cs)
  obtain h1 r1 where c: "clear d c h = (h1, r1)" by (cases "clear d c h")
  then have s1: "\<forall>m. set (next (h1 m)) \<subseteq> set (next (h m))" using IH by blast
  show ?case
  proof (cases r1)
    case (Inl e)
    with c Cons.prems s1 show ?thesis by simp
  next
    case (Inr u)
    with c Cons.prems have "forEach (clear d) cs h1 = (h', r)" by simp
    then have "\<forall>m. set (next (h' m)) \<subseteq> set (next (h1 m))" by (rule Cons.IH)
    with s1 show ?thesis by blast
  qed
qed

lemma clear_shrinks:
  fixes h :: "'a heap"
  shows "clear d s h = (h', r) \<Longrightarrow> (\<forall>m. set (next (h' m)) \<subseteq> set (next (h m)))"
proof (induction d arbitrary: s h h' r)
  case 0
  then show ?case by simp
next
  case (Suc d)
  obtain h1 r1 where f: "forEach (clear d) (next (h s)) h = (h1, r1)"
    by (cases "forEach (clear d) (next (h s)) h")
  have "\<forall>s (h :: 'a heap) h' r. clear d s h = (h', r) \<longrightarrow> (\<forall>m. set (next (h' m)) \<subseteq> set (next (h m)))"
    using Suc.IH by blast
  then have s1: "\<forall>m. set (next (h1 m)) \<subseteq> set (next (h m))"
    using forEach_clear_shrinks f by blast
  show ?case
  proof (cases r1)
    case (Inl e)
    with f Suc.prems s1 show ?thesis by simp
  next
    case (Inr u)
    with f Suc.prems have "h' = h1(s := (h1 s)\<lparr>next := [], lazyNext := [], updates := [], observers := []\<rparr>)"
      by simp
    with s1 show ?thesis by simp
  qed
qed

lemma forEach_clear_returns:
  fixes h :: "'a heap"
  assumes IH: "\<forall>s (h :: 'a heap). (\<forall>a b. b \<in> set (next (h a)) \<longrightarrow> rk b < rk a) \<and> rk s < d \<longrightarrow> snd (clear d s h) = Inr ()"
  shows "(\<forall>a b. b \<in> set (next (h a)) \<longrightarrow> rk b < (rk a :: nat)) \<Longrightarrow> (\<forall>c \<in> set cs. rk c < d) \<Longrightarrow>
         snd (forEach (clear d) cs h) = Inr ()"
proof (induction cs arbitrary: h)
  case Nil
  then show ?case by simp
next
  case (Cons c cs)
  obtain h1 r1 where c: "clear d c h = (h1, r1)" by (cases "clear d c h")
  have "rk c < d" using Cons.prems(2) by simp
  with IH Cons.prems(1) have "snd (clear d c h) = Inr ()" by blast
  with c have r1: "r1 = Inr ()" by simp
  have "\<forall>m. set (next (h1 m)) \<subseteq> set (next (h m))" using clear_shrinks [OF c] .
  with Cons.prems(1) have "\<forall>a b. b \<in> set (next (h1 a)) \<longrightarrow> rk b < rk a" by blast
  then have "snd (forEach (clear d) cs h1) = Inr ()" using Cons.IH Cons.prems(2) by simp
  with c r1 show ?case by simp
qed

lemma clear_returns:
  fixes h :: "'a heap"
  shows "(\<forall>a b. b \<in> set (next (h a)) \<longrightarrow> rk b < (rk a :: nat)) \<Longrightarrow> rk s < d \<Longrightarrow> snd (clear d s h) = Inr ()"
proof (induction d arbitrary: s h)
  case 0
  then show ?case by simp
next
  case (Suc d)
  have "\<forall>c \<in> set (next (h s)). rk c < d" using Suc.prems by fastforce
  moreover have "\<forall>s (h :: 'a heap). (\<forall>a b. b \<in> set (next (h a)) \<longrightarrow> rk b < rk a) \<and> rk s < d \<longrightarrow> snd (clear d s h) = Inr ()"
    using Suc.IH by blast
  ultimately have "snd (forEach (clear d) (next (h s)) h) = Inr ()"
    using forEach_clear_returns [of rk d h "next (h s)"] Suc.prems(1) by blast
  then show ?case by (cases "forEach (clear d) (next (h s)) h") simp
qed

lemma flow_inert:
  assumes "next (h m) = []" "lazyNext (h m) = []" "updates (h m) = []" "observers (h m) = []"
  shows "flow (Suc k) h c v m = Inr emptyFlowingState"
  using assms by (simp add: streamToFlowingState_def emptyFlowingState_def split: sum.splits)

lemma drip_inert:
  assumes "next (nodes \<sigma> m) = []" "lazyNext (nodes \<sigma> m) = []" "updates (nodes \<sigma> m) = []"
    "observers (nodes \<sigma> m) = []" "\<not> observerPhase \<sigma>"
  shows "drip (Suc (Suc (Suc k))) \<sigma> m v = (\<sigma>, Inr emptyFlowingState)"
proof -
  have "flow (Suc k) (nodes \<sigma>) (cells \<sigma>) v m = Inr emptyFlowingState"
    using assms(1-4) by (rule flow_inert)
  then have "flowLazy (Suc (Suc k)) (nodes \<sigma>) (cells \<sigma>) v m = Inr emptyFlowingState"
    by (simp add: emptyFlowingState_def del: flow.simps)
  then show ?thesis
    using assms(5) by (simp add: emptyFlowingState_def run_updates_def del: flowLazy.simps)
qed

subsection \<open>Where update thunks come from\<close>

lemma foldl_concat_fields:
  "waiting (foldl concatFlowingState a fs) = waiting a @ concat (map waiting fs)"
  "FlowingState.observers (foldl concatFlowingState a fs) =
     FlowingState.observers a @ concat (map FlowingState.observers fs)"
  "FlowingState.updates (foldl concatFlowingState a fs) =
     FlowingState.updates a @ concat (map FlowingState.updates fs)"
  by (induction fs arbitrary: a) (simp_all add: concatFlowingState_def)

lemma mapE_Inr_elems: "mapE f xs = Inr ys \<Longrightarrow> y \<in> set ys \<Longrightarrow> \<exists>x \<in> set xs. f x = Inr y"
  by (induction xs arbitrary: ys) (auto split: sum.splits)

lemma flow_Suc_cases:
  assumes "flow (Suc d) h c v s = Inr st"
  obtains "st = emptyFlowingState"
  | r ns fs where "STREAM_FUNCTOR (h s) c v = Inr r" "filterE (accepts h c r) (next (h s)) = Inr ns"
      "mapE (flow d h c r) ns = Inr fs"
      "st = foldl concatFlowingState (streamToFlowingState r (h s)) fs"
  using assms by (auto split: sum.splits)

lemma flow_updates_rank:
  fixes h :: "'a heap"
  assumes rank: "\<forall>a b. b \<in> set (next (h a)) \<longrightarrow> rk b < (rk a :: nat)"
    and nop: "\<forall>m. rk m < R \<longrightarrow> p \<notin> set (updates (h m))"
  shows "rk s < R \<Longrightarrow> flow d h c v s = Inr st \<Longrightarrow> p \<notin> fst ` set (FlowingState.updates st)"
proof (induction d arbitrary: s v st)
  case 0
  then show ?case by simp
next
  case (Suc d)
  from Suc.prems(2) show ?case
  proof (cases rule: flow_Suc_cases)
    case 1
    then show ?thesis by (simp add: emptyFlowingState_def)
  next
    case (2 r ns fs)
    have own: "p \<notin> fst ` set (FlowingState.updates (streamToFlowingState r (h s)))"
      using nop Suc.prems(1) by (auto simp: streamToFlowingState_def)
    have kids: "\<forall>f \<in> set fs. p \<notin> fst ` set (FlowingState.updates f)"
    proof
      fix f assume "f \<in> set fs"
      then obtain k where k: "k \<in> set ns" "flow d h c r k = Inr f"
        using mapE_Inr_elems [OF 2(3)] by blast
      then have "k \<in> set (next (h s))" using filterE_subset [OF 2(2)] by blast
      then have "rk k < R" using rank Suc.prems(1) by fastforce
      then show "p \<notin> fst ` set (FlowingState.updates f)" using Suc.IH k(2) by blast
    qed
    show ?thesis using own kids by (auto simp: 2(4) foldl_concat_fields)
  qed
qed

lemma flow_waiting_rank:
  fixes h :: "'a heap"
  assumes rank: "\<forall>a b. b \<in> set (next (h a)) \<union> set (lazyNext (h a)) \<longrightarrow> rk b < (rk a :: nat)"
  shows "flow d h c v s = Inr st \<Longrightarrow> m \<in> fst ` set (waiting st) \<Longrightarrow> rk m < rk s"
proof (induction d arbitrary: s v st)
  case 0
  then show ?case by simp
next
  case (Suc d)
  from Suc.prems(1) show ?case
  proof (cases rule: flow_Suc_cases)
    case 1
    with Suc.prems(2) show ?thesis by (simp add: emptyFlowingState_def)
  next
    case (2 r ns fs)
    from Suc.prems(2) consider "m \<in> set (lazyNext (h s))" | f where "f \<in> set fs" "m \<in> fst ` set (waiting f)"
      by (auto simp: 2(4) foldl_concat_fields streamToFlowingState_def)
    then show ?thesis
    proof cases
      case 1
      then show ?thesis using rank by blast
    next
      case (2 f)
      then obtain k where k: "k \<in> set ns" "flow d h c r k = Inr f"
        using mapE_Inr_elems [OF \<open>mapE (flow d h c r) ns = Inr fs\<close>] by blast
      then have "k \<in> set (next (h s))"
        using filterE_subset [OF \<open>filterE (accepts h c r) (next (h s)) = Inr ns\<close>] by blast
      then have "rk k < rk s" using rank by blast
      moreover have "rk m < rk k" using Suc.IH [OF k(2) 2(2)] .
      ultimately show ?thesis by simp
    qed
  qed
qed

lemma grouping_targets: "(m, vs) \<in> set (grouping w) \<Longrightarrow> m \<in> fst ` set w"
proof -
  assume "(m, vs) \<in> set (grouping w)"
  then have "m \<in> set (map fst (grouping w))" by force
  then show ?thesis by (simp add: grouping_keys)
qed

lemma flowLazy_updates_rank:
  fixes h :: "'a heap"
  assumes rank: "\<forall>a b. b \<in> set (next (h a)) \<union> set (lazyNext (h a)) \<longrightarrow> rk b < (rk a :: nat)"
    and nop: "\<forall>m. rk m < R \<longrightarrow> p \<notin> set (updates (h m))"
  shows "rk s < R \<Longrightarrow> flowLazy d h c v s = Inr st \<Longrightarrow> p \<notin> fst ` set (FlowingState.updates st)"
proof (induction d arbitrary: s v st)
  case 0
  then show ?case by simp
next
  case (Suc d)
  have rank': "\<forall>a b. b \<in> set (next (h a)) \<longrightarrow> rk b < rk a" using rank by blast
  from Suc.prems(2) obtain r where r: "flow d h c v s = Inr r"
    by (auto split: sum.splits)
  have pr: "p \<notin> fst ` set (FlowingState.updates r)"
    using flow_updates_rank [OF rank' nop Suc.prems(1) r] .
  show ?case
  proof (cases "waiting r = []")
    case True
    with Suc.prems(2) r pr show ?thesis by simp
  next
    case False
    with Suc.prems(2) r obtain fs where
      fs: "mapE (\<lambda>(m, vs). flowLazy d h c (Arr vs) m) (grouping (waiting r)) = Inr fs"
      and st: "st = foldl concatFlowingState \<lparr>waiting = [], observers = FlowingState.observers r,
                         updates = FlowingState.updates r\<rparr> fs"
      by (auto split: sum.splits)
    have "\<forall>f \<in> set fs. p \<notin> fst ` set (FlowingState.updates f)"
    proof
      fix f assume "f \<in> set fs"
      then obtain x where x: "x \<in> set (grouping (waiting r))"
        "(case x of (m, vs) \<Rightarrow> flowLazy d h c (Arr vs) m) = Inr f"
        using mapE_Inr_elems [OF fs] by blast
      obtain m vs where mv: "x = (m, vs)" by (cases x)
      with x(1) have "m \<in> fst ` set (waiting r)" using grouping_targets by fastforce
      then have "rk m < rk s" using flow_waiting_rank [OF rank r] by blast
      then have "rk m < R" using Suc.prems(1) by simp
      with x(2) mv show "p \<notin> fst ` set (FlowingState.updates f)" using Suc.IH by simp
    qed
    with pr show ?thesis by (auto simp: st foldl_concat_fields)
  qed
qed

lemma flowLazy_root_updates:
  fixes h :: "'a heap"
  assumes rank: "\<forall>a b. b \<in> set (next (h a)) \<union> set (lazyNext (h a)) \<longrightarrow> rk b < (rk a :: nat)"
    and only: "\<forall>m. m \<noteq> s \<longrightarrow> p \<notin> set (updates (h m))"
    and fn: "STREAM_FUNCTOR (h s) c v = Inr r"
    and fl: "filterE (accepts h c r) (next (h s)) = Inr ns"
    and st: "flowLazy (Suc (Suc (Suc d))) h c v s = Inr st"
  shows "\<exists>rest. FlowingState.updates st = map (\<lambda>q. (q, r)) (updates (h s)) @ rest \<and>
                p \<notin> fst ` set rest"
proof -
  have rank': "\<forall>a b. b \<in> set (next (h a)) \<longrightarrow> rk b < rk a" using rank by blast
  have nop: "\<forall>m. rk m < rk s \<longrightarrow> p \<notin> set (updates (h m))" using only by auto
  let ?fs = "map (\<lambda>m. projr (flow (Suc d) h c r m)) ns"
  let ?r0 = "foldl concatFlowingState (streamToFlowingState r (h s)) ?fs"
  have r0: "flow (Suc (Suc d)) h c v s = Inr ?r0" using fn fl by (rule flow_step)
  have kids: "\<forall>f \<in> set ?fs. p \<notin> fst ` set (FlowingState.updates f)"
  proof
    fix f assume "f \<in> set ?fs"
    then obtain k where k: "k \<in> set ns" "f = projr (flow (Suc d) h c r k)" by auto
    obtain f' where f': "flow (Suc d) h c r k = Inr f'" using flow_Suc_returns by blast
    from k(1) have "k \<in> set (next (h s))" using filterE_subset [OF fl] by blast
    then have "rk k < rk s" using rank by blast
    then have "p \<notin> fst ` set (FlowingState.updates f')"
      using flow_updates_rank [OF rank' nop _ f'] by blast
    with k(2) f' show "p \<notin> fst ` set (FlowingState.updates f)" by simp
  qed
  have u0: "FlowingState.updates ?r0 = map (\<lambda>q. (q, r)) (updates (h s)) @ concat (map FlowingState.updates ?fs)"
    by (simp add: foldl_concat_fields streamToFlowingState_def)
  have k0: "p \<notin> fst ` set (concat (map FlowingState.updates ?fs))"
    using kids by auto
  show ?thesis
  proof (cases "waiting ?r0 = []")
    case True
    with st r0 have "st = ?r0" by (simp del: flow.simps)
    with u0 k0 show ?thesis by blast
  next
    case False
    with st r0 obtain fs where
      fs: "mapE (\<lambda>(m, vs). flowLazy (Suc (Suc d)) h c (Arr vs) m) (grouping (waiting ?r0)) = Inr fs"
      and st': "st = foldl concatFlowingState \<lparr>waiting = [], observers = FlowingState.observers ?r0,
                         updates = FlowingState.updates ?r0\<rparr> fs"
      by (auto simp del: flow.simps flowLazy.simps simp: flowLazy.simps(2) [of "Suc (Suc d)"] split: sum.splits)
    have "\<forall>f \<in> set fs. p \<notin> fst ` set (FlowingState.updates f)"
    proof
      fix f assume "f \<in> set fs"
      then obtain x where x: "x \<in> set (grouping (waiting ?r0))"
        "(case x of (m, vs) \<Rightarrow> flowLazy (Suc (Suc d)) h c (Arr vs) m) = Inr f"
        using mapE_Inr_elems [OF fs] by blast
      obtain m vs where mv: "x = (m, vs)" by (cases x)
      with x(1) have "m \<in> fst ` set (waiting ?r0)" using grouping_targets by fastforce
      then have lt: "rk m < rk s" using flow_waiting_rank [OF rank r0] by blast
      from x(2) mv have "flowLazy (Suc (Suc d)) h c (Arr vs) m = Inr f"
        by (simp del: flowLazy.simps flow.simps)
      then show "p \<notin> fst ` set (FlowingState.updates f)"
        using flowLazy_updates_rank [OF rank nop lt] by blast
    qed
    then have "p \<notin> fst ` set (concat (map FlowingState.updates ?fs) @ concat (map FlowingState.updates fs))"
      using k0 by auto
    moreover have "FlowingState.updates st = map (\<lambda>q. (q, r)) (updates (h s)) @
                    (concat (map FlowingState.updates ?fs) @ concat (map FlowingState.updates fs))"
      by (simp add: st' foldl_concat_fields streamToFlowingState_def)
    ultimately show ?thesis by blast
  qed
qed

lemma run_updates_cells:
  "cells (run_updates ts \<sigma>) p = (case map_of (rev ts) p of None \<Rightarrow> cells \<sigma> p | Some w \<Rightarrow> w)"
  unfolding run_updates_def
  by (induction ts arbitrary: \<sigma>) (auto simp: run_update_def map_add_def split: option.splits)

lemma map_of_const: "p \<in> set us \<Longrightarrow> map_of (map (\<lambda>q. (q, r)) us) p = Some r"
  by (induction us) auto

lemma run_updates_own:
  assumes "p \<in> set us" and "p \<notin> fst ` set rest"
  shows "cells (run_updates (map (\<lambda>q. (q, r)) us @ rest) \<sigma>) p = r"
proof -
  have "map_of (rev rest) p = None"
    using assms(2) by (simp add: map_of_eq_None_iff)
  moreover have "map_of (rev (map (\<lambda>q. (q, r)) us)) p = Some r"
    using map_of_const [of p "rev us" r] assms(1) by (simp add: rev_map)
  ultimately show ?thesis
    by (simp add: run_updates_cells map_add_def)
qed

subsection \<open>The switch of \<open>shed\<close>\<close>

















lemma filter_single_split:
  assumes "filter P xs = [x]"
  shows "P x \<and> (\<exists>us vs. xs = us @ x # vs \<and> takeWhile (\<lambda>t. \<not> P t) xs = us \<and>
           (\<forall>u \<in> set us. \<not> P u) \<and> (\<forall>v \<in> set vs. \<not> P v))"
proof -
  from assms obtain us vs where
    d: "xs = us @ x # vs" "\<forall>u \<in> set us. \<not> P u" "P x" "[] = filter P vs"
    unfolding filter_eq_Cons_iff by blast
  from d(4) [symmetric] have "\<forall>v \<in> set vs. \<not> P v" by (simp add: filter_empty_conv)
  moreover have "takeWhile (\<lambda>t. \<not> P t) xs = us"
    unfolding d(1) using d(2,3) by (simp add: takeWhile_append2)
  ultimately show ?thesis using d(1,2,3) by blast
qed



































subsection \<open>Evaluation of concrete programs\<close>

text \<open>
  The operations applied to a state that is written out, and the recursive functions at a
  depth given by a numeral, so that a concrete program is evaluated step by step.
\<close>

lemma stream_explicit:
  "stream f \<lparr>nodes = T, cells = C, observerPhase = g, observed = l, streams = k, props = j\<rparr> =
     (k, \<lparr>nodes = T(k := \<lparr>STREAM_FUNCTOR = f, STREAM_FILTER = None, next = [], lazyNext = [],
                            updates = [], observers = []\<rparr>),
          cells = C, observerPhase = g, observed = l, streams = Suc k, props = j\<rparr>)"
  by (simp add: stream_def)

lemma pipe_explicit:
  "pipe s f \<lparr>nodes = T, cells = C, observerPhase = g, observed = l, streams = k, props = j\<rparr> =
     (k, \<lparr>nodes = (T(k := \<lparr>STREAM_FUNCTOR = f, STREAM_FILTER = None, next = [], lazyNext = [],
                            updates = [], observers = []\<rparr>))
                   (s := ((T(k := \<lparr>STREAM_FUNCTOR = f, STREAM_FILTER = None, next = [], lazyNext = [],
                            updates = [], observers = []\<rparr>)) s)
                         \<lparr>next := set_add k (next ((T(k := \<lparr>STREAM_FUNCTOR = f, STREAM_FILTER = None, next = [], lazyNext = [],
                            updates = [], observers = []\<rparr>)) s))\<rparr>),
          cells = C, observerPhase = g, observed = l, streams = Suc k, props = j\<rparr>)"
  by (simp add: pipe_def stream_def)

lemma merge_fold_explicit:
  "foldl (\<lambda>\<sigma> s. \<sigma>\<lparr>nodes := (nodes \<sigma>)(s := (nodes \<sigma> s)\<lparr>lazyNext := set_add m (lazyNext (nodes \<sigma> s))\<rparr>)\<rparr>)
     \<lparr>nodes = T, cells = C, observerPhase = g, observed = l, streams = k, props = j\<rparr> ss =
   \<lparr>nodes = foldl (\<lambda>h s. h(s := (h s)\<lparr>lazyNext := set_add m (lazyNext (h s))\<rparr>)) T ss,
    cells = C, observerPhase = g, observed = l, streams = k, props = j\<rparr>"
  by (induction ss arbitrary: T) simp_all

lemma merge_explicit:
  "merge ss f \<lparr>nodes = T, cells = C, observerPhase = g, observed = l, streams = k, props = j\<rparr> =
     (k, \<lparr>nodes = foldl (\<lambda>h s. h(s := (h s)\<lparr>lazyNext := set_add k (lazyNext (h s))\<rparr>))
                    (T(k := \<lparr>STREAM_FUNCTOR = mergeFunctor f, STREAM_FILTER = None, next = [],
                             lazyNext = [], updates = [], observers = []\<rparr>)) ss,
          cells = C, observerPhase = g, observed = l, streams = Suc k, props = j\<rparr>)"
  by (simp add: merge_def stream_def merge_fold_explicit)

lemma hold_explicit:
  "hold s v \<lparr>nodes = T, cells = C, observerPhase = g, observed = l, streams = k, props = j\<rparr> =
     (j, \<lparr>nodes = T(s := (T s)\<lparr>updates := set_add j (updates (T s))\<rparr>),
          cells = C(j := v), observerPhase = g, observed = l, streams = k, props = Suc j\<rparr>)"
  by (simp add: hold_def)

lemma listen_explicit:
  "listen s f \<lparr>nodes = T, cells = C, observerPhase = g, observed = l, streams = k, props = j\<rparr> =
     \<lparr>nodes = T(s := (T s)\<lparr>observers := set_add f (observers (T s))\<rparr>),
      cells = C, observerPhase = g, observed = l, streams = k, props = j\<rparr>"
  by (simp add: listen_def)

lemmas build = initial_def stream_explicit pipe_explicit merge_explicit hold_explicit
  listen_explicit filter'_def shed_def set_add_def

lemma flow_numeral:
  "flow (numeral k) h c v s =
     (case (case STREAM_FUNCTOR (h s) c v of
              Inl e \<Rightarrow> Inl e
            | Inr r \<Rightarrow>
               (case filterE (accepts h c r) (next (h s)) of
                  Inl e \<Rightarrow> Inl e
                | Inr ns \<Rightarrow>
                   (case mapE (flow (pred_numeral k) h c r) ns of
                      Inl e \<Rightarrow> Inl e
                    | Inr fs \<Rightarrow> Inr (foldl concatFlowingState (streamToFlowingState r (h s)) fs))))
      of Inl e \<Rightarrow> Inr emptyFlowingState
       | Inr st \<Rightarrow> Inr st)"
  by (simp add: numeral_eq_Suc)

lemma flowLazy_numeral:
  "flowLazy (numeral k) h c v s =
     (case flow (pred_numeral k) h c v s of
        Inl e \<Rightarrow> Inl e
      | Inr r \<Rightarrow>
         if waiting r = [] then Inr r
         else (case mapE (\<lambda>(s, v). flowLazy (pred_numeral k) h c (Arr v) s) (grouping (waiting r)) of
                 Inl e \<Rightarrow> Inl e
               | Inr fs \<Rightarrow>
                  Inr (foldl concatFlowingState
                         \<lparr>waiting = [], observers = FlowingState.observers r,
                          updates = FlowingState.updates r\<rparr> fs)))"
  by (simp add: numeral_eq_Suc)

lemma drip_numeral:
  "drip (numeral k) \<sigma> s v =
     (if observerPhase \<sigma> then (\<sigma>, Inl (Error ''drip cannot be called during observer phase''))
      else
        (case flowLazy (pred_numeral k) (nodes \<sigma>) (cells \<sigma>) v s of
           Inl e \<Rightarrow> (\<sigma>\<lparr>observerPhase := False\<rparr>, Inr emptyFlowingState)
         | Inr st \<Rightarrow>
            (case forEach (run_observer (pred_numeral k)) (FlowingState.observers st) (\<sigma>\<lparr>observerPhase := True\<rparr>) of
               (\<sigma>1, Inl e) \<Rightarrow> (\<sigma>1\<lparr>observerPhase := False\<rparr>, Inr emptyFlowingState)
             | (\<sigma>1, Inr u) \<Rightarrow>
                (run_updates (FlowingState.updates st) (\<sigma>1\<lparr>observerPhase := False\<rparr>), Inr st))))"
  by (simp add: numeral_eq_Suc)

lemma clear_numeral:
  "clear (numeral k) s h =
     (case forEach (clear (pred_numeral k)) (next (h s)) h of
        (h', Inl e) \<Rightarrow> (h', Inl e)
      | (h', Inr u) \<Rightarrow>
          (h'(s := (h' s)\<lparr>next := [], lazyNext := [], updates := [], observers := []\<rparr>), Inr ()))"
  by (simp add: numeral_eq_Suc)

lemmas depth_numeral = flow_numeral flowLazy_numeral drip_numeral clear_numeral

lemma mapE_weak_cong: "xs = ys \<Longrightarrow> mapE f xs = mapE f ys"
  by simp

lemmas run = parrot_def accepts_def streamToFlowingState_def concatFlowingState_def
  emptyFlowingState_def grouping_def run_updates_def run_update_def depth_numeral

subsection \<open>The example programs, evaluated\<close>

lemma throwing_child_nodes:
  "nodes throwing_child = (\<lambda>n.
     if n = 0 then \<lparr>STREAM_FUNCTOR = parrot, STREAM_FILTER = None, next = [1, 2], lazyNext = [],
                     updates = [], observers = [Record 0]\<rparr>
     else if n = 1 then \<lparr>STREAM_FUNCTOR = boom, STREAM_FILTER = None, next = [], lazyNext = [],
                     updates = [], observers = []\<rparr>
     else if n = 2 then \<lparr>STREAM_FUNCTOR = parrot, STREAM_FILTER = None, next = [], lazyNext = [],
                     updates = [], observers = [Record 1]\<rparr>
     else \<lparr>STREAM_FUNCTOR = parrot, STREAM_FILTER = None, next = [], lazyNext = [],
            updates = [], observers = []\<rparr>)"
  by (rule ext) (simp add: throwing_child_def build cong: prod.case_cong_weak)

lemma throwing_filter_nodes:
  "nodes throwing_filter = (\<lambda>n.
     if n = 0 then \<lparr>STREAM_FUNCTOR = parrot, STREAM_FILTER = None, next = [1, 2], lazyNext = [],
                     updates = [], observers = [Record 0]\<rparr>
     else if n = 1 then \<lparr>STREAM_FUNCTOR = parrot, STREAM_FILTER = None, next = [], lazyNext = [],
                     updates = [], observers = [Record 1]\<rparr>
     else if n = 2 then \<lparr>STREAM_FUNCTOR = parrot, STREAM_FILTER = Some (\<lambda>c v. Inl (Error ''boom'')),
                     next = [], lazyNext = [], updates = [], observers = []\<rparr>
     else \<lparr>STREAM_FUNCTOR = parrot, STREAM_FILTER = None, next = [], lazyNext = [],
            updates = [], observers = []\<rparr>)"
  by (rule ext) (simp add: throwing_filter_def build cong: prod.case_cong_weak)

lemma merge_chain_nodes:
  "nodes merge_chain = (\<lambda>n.
     if n = 0 then \<lparr>STREAM_FUNCTOR = parrot, STREAM_FILTER = None, next = [], lazyNext = [1],
                     updates = [0], observers = [Record 0]\<rparr>
     else if n = 1 then \<lparr>STREAM_FUNCTOR = mergeFunctor add, STREAM_FILTER = None, next = [],
                     lazyNext = [2], updates = [], observers = []\<rparr>
     else if n = 2 then \<lparr>STREAM_FUNCTOR = mergeFunctor add, STREAM_FILTER = None, next = [],
                     lazyNext = [], updates = [], observers = []\<rparr>
     else \<lparr>STREAM_FUNCTOR = parrot, STREAM_FILTER = None, next = [], lazyNext = [],
            updates = [], observers = []\<rparr>)"
  by (rule ext) (simp add: merge_chain_def build cong: prod.case_cong_weak)

lemma merge_chain_rest:
  "observerPhase merge_chain = False" "observed merge_chain = []" "cells merge_chain 0 = Prim 0"
  by (simp_all add: merge_chain_def build cong: prod.case_cong_weak)

lemma throwing_observer_nodes:
  "nodes throwing_observer = (\<lambda>n.
     if n = 0 then \<lparr>STREAM_FUNCTOR = parrot, STREAM_FILTER = None, next = [], lazyNext = [],
                     updates = [0], observers = [Record 1, Raise (Error ''boom''), Record 2]\<rparr>
     else \<lparr>STREAM_FUNCTOR = parrot, STREAM_FILTER = None, next = [], lazyNext = [],
            updates = [], observers = []\<rparr>)"
  by (rule ext) (simp add: throwing_observer_def build cong: prod.case_cong_weak)

lemma throwing_observer_rest:
  "observerPhase throwing_observer = False" "observed throwing_observer = []"
  "cells throwing_observer 0 = Prim 0"
  by (simp_all add: throwing_observer_def build cong: prod.case_cong_weak)

lemma reentrant_observer_nodes:
  "nodes reentrant_observer = (\<lambda>n.
     if n = 0 then \<lparr>STREAM_FUNCTOR = parrot, STREAM_FILTER = None, next = [], lazyNext = [],
                     updates = [], observers = [Record 1, Inject 1 (Prim 9), Record 2]\<rparr>
     else if n = 1 then \<lparr>STREAM_FUNCTOR = parrot, STREAM_FILTER = None, next = [], lazyNext = [],
                     updates = [], observers = [Record 3]\<rparr>
     else \<lparr>STREAM_FUNCTOR = parrot, STREAM_FILTER = None, next = [], lazyNext = [],
            updates = [], observers = []\<rparr>)"
  by (rule ext) (simp add: reentrant_observer_def build cong: prod.case_cong_weak)

lemma reentrant_observer_rest:
  "observerPhase reentrant_observer = False" "observed reentrant_observer = []"
  by (simp_all add: reentrant_observer_def build cong: prod.case_cong_weak)

lemma held_nodes:
  "nodes held = (\<lambda>n.
     if n = 0 then \<lparr>STREAM_FUNCTOR = parrot, STREAM_FILTER = None, next = [], lazyNext = [],
                     updates = [0], observers = [Sample 1 0, Record 2]\<rparr>
     else \<lparr>STREAM_FUNCTOR = parrot, STREAM_FILTER = None, next = [], lazyNext = [],
            updates = [], observers = []\<rparr>)"
  by (rule ext) (simp add: held_def build cong: prod.case_cong_weak)

lemma held_rest:
  "observerPhase held = False" "observed held = []" "cells held 0 = Prim 7"
  by (simp_all add: held_def build cong: prod.case_cong_weak)

lemma held_wrap_at:
  "nodes held_wrap 0 = \<lparr>STREAM_FUNCTOR = wrap, STREAM_FILTER = None, next = [], lazyNext = [],
                     updates = [0], observers = []\<rparr>"
  "observerPhase held_wrap = False" "cells held_wrap 0 = Prim 0"
  by (simp_all add: held_wrap_def build cong: prod.case_cong_weak)

lemma chained_merges_at:
  "nodes chained_merges 0 =
     \<lparr>STREAM_FUNCTOR = parrot, STREAM_FILTER = None, next = [], lazyNext = [1, 2],
      updates = [], observers = []\<rparr>"
  "nodes chained_merges (Suc 0) =
     \<lparr>STREAM_FUNCTOR = mergeFunctor add, STREAM_FILTER = None, next = [], lazyNext = [3],
      updates = [], observers = []\<rparr>"
  "nodes chained_merges 2 =
     \<lparr>STREAM_FUNCTOR = mergeFunctor add, STREAM_FILTER = None, next = [], lazyNext = [3],
      updates = [], observers = []\<rparr>"
  "nodes chained_merges 3 =
     \<lparr>STREAM_FUNCTOR = mergeFunctor add, STREAM_FILTER = None, next = [], lazyNext = [],
      updates = [], observers = [Record 7]\<rparr>"
  by (simp_all add: chained_merges_def build cong: prod.case_cong_weak)

lemma diamond_merge_at:
  "nodes diamond_merge 0 =
     \<lparr>STREAM_FUNCTOR = parrot, STREAM_FILTER = None, next = [1, 2], lazyNext = [],
      updates = [], observers = []\<rparr>"
  "nodes diamond_merge (Suc 0) =
     \<lparr>STREAM_FUNCTOR = parrot, STREAM_FILTER = None, next = [], lazyNext = [3],
      updates = [], observers = []\<rparr>"
  "nodes diamond_merge 2 =
     \<lparr>STREAM_FUNCTOR = wrap, STREAM_FILTER = None, next = [], lazyNext = [3],
      updates = [], observers = []\<rparr>"
  "nodes diamond_merge 3 =
     \<lparr>STREAM_FUNCTOR = mergeFunctor pair, STREAM_FILTER = None, next = [], lazyNext = [],
      updates = [], observers = [Record 7]\<rparr>"
  by (simp_all add: diamond_merge_def build cong: prod.case_cong_weak)

lemma lazy_clear_nodes:
  "nodes lazy_clear = (\<lambda>n.
     if n = 0 then \<lparr>STREAM_FUNCTOR = parrot, STREAM_FILTER = None, next = [1], lazyNext = [2],
                     updates = [], observers = []\<rparr>
     else if n = 1 then \<lparr>STREAM_FUNCTOR = parrot, STREAM_FILTER = None, next = [], lazyNext = [],
                     updates = [0], observers = [Record 1]\<rparr>
     else if n = 2 then \<lparr>STREAM_FUNCTOR = mergeFunctor add, STREAM_FILTER = None, next = [],
                     lazyNext = [], updates = [], observers = [Record 2]\<rparr>
     else \<lparr>STREAM_FUNCTOR = parrot, STREAM_FILTER = None, next = [], lazyNext = [],
            updates = [], observers = []\<rparr>)"
  by (rule ext) (simp add: lazy_clear_def build cong: prod.case_cong_weak)

lemma lazy_clear_at:
  "nodes lazy_clear 0 =
     \<lparr>STREAM_FUNCTOR = parrot, STREAM_FILTER = None, next = [1], lazyNext = [2],
      updates = [], observers = []\<rparr>"
  "nodes lazy_clear (Suc 0) =
     \<lparr>STREAM_FUNCTOR = parrot, STREAM_FILTER = None, next = [], lazyNext = [],
      updates = [0], observers = [Record 1]\<rparr>"
  "nodes lazy_clear 2 =
     \<lparr>STREAM_FUNCTOR = mergeFunctor add, STREAM_FILTER = None, next = [], lazyNext = [],
      updates = [], observers = [Record 2]\<rparr>"
  by (simp_all add: lazy_clear_nodes)

lemma lazy_clear_rest: "observerPhase lazy_clear = False" "observed lazy_clear = []"
  by (simp_all add: lazy_clear_def build cong: prod.case_cong_weak)

lemma lazy_clear_cleared:
  "clear 3 0 (nodes lazy_clear) =
     ((nodes lazy_clear)
        (Suc 0 := \<lparr>STREAM_FUNCTOR = parrot, STREAM_FILTER = None, next = [], lazyNext = [],
                   updates = [], observers = []\<rparr>,
         0 := \<lparr>STREAM_FUNCTOR = parrot, STREAM_FILTER = None, next = [], lazyNext = [],
               updates = [], observers = []\<rparr>), Inr ())"
  by (simp add: lazy_clear_at run)

lemma lazy_clear_descendants: "descendants (nodes lazy_clear) 0 = {0, 1}"
proof -
  have "edges (nodes lazy_clear) = {(0, 1)}"
    by (auto simp: edges_def lazy_clear_nodes split: if_splits)
  then show ?thesis
    by (auto simp: descendants_def rtrancl_insert)
qed


























section \<open>Observers run before updates\<close>

text \<open>
  C1, as stated, has the reader of \<open>hold(s)(init)\<close> return \<open>v\<close> after every call
  \<open>drip(s)(v)\<close> whose pure phase completes. In \<open>throwing_observer\<close> the second observer of
  \<open>s\<close> throws: the pure phase completes, the call returns, and the property still holds
  its initial value \<open>0\<close>, not \<open>5\<close>. In \<open>held_wrap\<close> the functor of \<open>s\<close> is not the identity:
  after \<open>drip(s)(5)\<close> the property holds \<open>[5]\<close>, the value \<open>s\<close> emitted.
\<close>

theorem drip_hold_counterexample:
  "flowLazy 2 (nodes throwing_observer) (cells throwing_observer) (Prim 5) 0 =
     Inr \<lparr>waiting = [],
          observers = [(Record 1, Prim 5), (Raise (Error ''boom''), Prim 5), (Record 2, Prim 5)],
          updates = [(0, Prim 5)]\<rparr> \<and>
   snd (drip 3 throwing_observer 0 (Prim 5)) = Inr emptyFlowingState \<and>
   reader 0 (fst (drip 3 throwing_observer 0 (Prim 5))) = Prim 0 \<and>
   snd (drip 3 held_wrap 0 (Prim 5)) =
     Inr \<lparr>waiting = [], observers = [], updates = [(0, Arr [Prim 5])]\<rparr> \<and>
   reader 0 (fst (drip 3 held_wrap 0 (Prim 5))) = Arr [Prim 5]"
  by (simp add: throwing_observer_nodes throwing_observer_rest held_wrap_at wrap_def reader_def run
        cong: mapE_weak_cong)

text \<open>
  C1, amended. In a call of \<open>drip\<close> whose pure phase completes, every observer thunk that
  is invoked finds all property cells as they were before the call, so an observer that
  reads a property gets its pre-event value; when no observer thunk throws, the update
  thunks run afterwards, in order. For a property \<open>p\<close> held on \<open>s\<close> alone, as \<open>hold(s)(init)\<close>
  makes it: the reader returns \<open>init\<close> after \<open>hold\<close>; and after \<open>drip(s)(v)\<close> it returns the
  value \<open>r\<close> that the functor of \<open>s\<close> gave for \<open>v\<close> (\<open>v\<close> itself for an identity
  stream), provided no observer thunk threw, no filter of a child of \<open>s\<close> threw, the graph
  is acyclic and the call stack admits three nested calls.
\<close>

theorem drip_observers_before_updates:
  fixes \<sigma> :: "'a state"
  assumes "\<not> observerPhase \<sigma>" and "flowLazy d (nodes \<sigma>) (cells \<sigma>) v s = Inr st"
  shows
  "(\<forall>pre t post \<sigma>0. FlowingState.observers st = pre @ t # post \<and>
       forEach (run_observer d) pre (\<sigma>\<lparr>observerPhase := True\<rparr>) = (\<sigma>0, Inr ()) \<longrightarrow>
       cells \<sigma>0 = cells \<sigma> \<and>
       (\<forall>u q. fst t = Sample u q \<longrightarrow>
          run_observer d t \<sigma>0 = (\<sigma>0\<lparr>observed := observed \<sigma>0 @ [(u, reader q \<sigma>)]\<rparr>, Inr ()))) \<and>
   (\<forall>\<sigma>1. forEach (run_observer d) (FlowingState.observers st) (\<sigma>\<lparr>observerPhase := True\<rparr>) = (\<sigma>1, Inr ()) \<longrightarrow>
       cells \<sigma>1 = cells \<sigma> \<and>
       drip (Suc d) \<sigma> s v = (run_updates (FlowingState.updates st) (\<sigma>1\<lparr>observerPhase := False\<rparr>), Inr st) \<and>
       (\<forall>p r ns. p \<in> set (updates (nodes \<sigma> s)) \<and> (\<forall>m. m \<noteq> s \<longrightarrow> p \<notin> set (updates (nodes \<sigma> m))) \<and>
                 (\<forall>a b. b \<in> set (next (nodes \<sigma> a)) \<union> set (lazyNext (nodes \<sigma> a)) \<longrightarrow> rk b < (rk a :: nat)) \<and>
                 STREAM_FUNCTOR (nodes \<sigma> s) (cells \<sigma>) v = Inr r \<and>
                 filterE (accepts (nodes \<sigma>) (cells \<sigma>) r) (next (nodes \<sigma> s)) = Inr ns \<and> 3 \<le> d \<longrightarrow>
                 reader p (fst (drip (Suc d) \<sigma> s v)) = r)) \<and>
   (\<forall>(\<sigma>0 :: 'a state) init.
       reader (fst (hold s init \<sigma>0)) (snd (hold s init \<sigma>0)) = init \<and>
       fst (hold s init \<sigma>0) \<in> set (updates (nodes (snd (hold s init \<sigma>0)) s)) \<and>
       ((\<forall>m. props \<sigma>0 \<notin> set (updates (nodes \<sigma>0 m))) \<longrightarrow>
          (\<forall>m. m \<noteq> s \<longrightarrow> fst (hold s init \<sigma>0) \<notin> set (updates (nodes (snd (hold s init \<sigma>0)) m)))))"
proof (intro conjI allI impI)
  fix pre t post \<sigma>0
  assume a: "FlowingState.observers st = pre @ t # post \<and>
       forEach (run_observer d) pre (\<sigma>\<lparr>observerPhase := True\<rparr>) = (\<sigma>0, Inr ())"
  then show c: "cells \<sigma>0 = cells \<sigma>"
    using forEach_guarded [of "\<sigma>\<lparr>observerPhase := True\<rparr>" d pre \<sigma>0 "Inr ()"] by simp
  fix u q assume "fst t = Sample u q"
  then obtain w where "t = (Sample u q, w)" by (cases t) auto
  then show "run_observer d t \<sigma>0 = (\<sigma>0\<lparr>observed := observed \<sigma>0 @ [(u, reader q \<sigma>)]\<rparr>, Inr ())"
    by (simp add: c reader_def)
next
  fix \<sigma>1
  assume f: "forEach (run_observer d) (FlowingState.observers st) (\<sigma>\<lparr>observerPhase := True\<rparr>) = (\<sigma>1, Inr ())"
  then show "cells \<sigma>1 = cells \<sigma>"
    using forEach_guarded [of "\<sigma>\<lparr>observerPhase := True\<rparr>" d "FlowingState.observers st" \<sigma>1 "Inr ()"] by simp
  show dr: "drip (Suc d) \<sigma> s v = (run_updates (FlowingState.updates st) (\<sigma>1\<lparr>observerPhase := False\<rparr>), Inr st)"
    using assms f by simp
  fix p r ns
  assume h: "p \<in> set (updates (nodes \<sigma> s)) \<and> (\<forall>m. m \<noteq> s \<longrightarrow> p \<notin> set (updates (nodes \<sigma> m))) \<and>
                 (\<forall>a b. b \<in> set (next (nodes \<sigma> a)) \<union> set (lazyNext (nodes \<sigma> a)) \<longrightarrow> rk b < rk a) \<and>
                 STREAM_FUNCTOR (nodes \<sigma> s) (cells \<sigma>) v = Inr r \<and>
                 filterE (accepts (nodes \<sigma>) (cells \<sigma>) r) (next (nodes \<sigma> s)) = Inr ns \<and> 3 \<le> d"
  then obtain d' where d': "d = Suc (Suc (Suc d'))"
    by (metis Suc_le_D numeral_3_eq_3 Suc_le_mono)
  have "\<exists>rest. FlowingState.updates st = map (\<lambda>q. (q, r)) (updates (nodes \<sigma> s)) @ rest \<and>
                p \<notin> fst ` set rest"
    using h assms(2) unfolding d'
    by (intro flowLazy_root_updates [where rk = rk and ns = ns]) blast+
  then obtain rest where rest: "FlowingState.updates st = map (\<lambda>q. (q, r)) (updates (nodes \<sigma> s)) @ rest"
    "p \<notin> fst ` set rest" by blast
  show "reader p (fst (drip (Suc d) \<sigma> s v)) = r"
    using h rest by (simp add: dr reader_def run_updates_own del: drip.simps)
next
  fix \<sigma>0 :: "'a state" and init
  show "reader (fst (hold s init \<sigma>0)) (snd (hold s init \<sigma>0)) = init"
    by (simp add: hold_def reader_def)
  show "fst (hold s init \<sigma>0) \<in> set (updates (nodes (snd (hold s init \<sigma>0)) s))"
    by (simp add: hold_def set_add_def)
  fix m assume "\<forall>m. props \<sigma>0 \<notin> set (updates (nodes \<sigma>0 m))" and "m \<noteq> s"
  then show "fst (hold s init \<sigma>0) \<notin> set (updates (nodes (snd (hold s init \<sigma>0)) m))"
    by (simp add: hold_def)
qed

theorem drip_observers_before_updates_witness:
  "\<not> observerPhase held \<and>
   flowLazy 3 (nodes held) (cells held) (Prim 5) 0 =
     Inr \<lparr>waiting = [], observers = [(Sample 1 0, Prim 5), (Record 2, Prim 5)],
          updates = [(0, Prim 5)]\<rparr> \<and>
   reader 0 held = Prim 7 \<and>
   run_observer 3 (Sample 1 0, Prim 5) (held\<lparr>observerPhase := True\<rparr>) =
     (held\<lparr>observerPhase := True, observed := [(1, Prim 7)]\<rparr>, Inr ()) \<and>
   observed (fst (drip 4 held 0 (Prim 5))) = [(1, Prim 7), (2, Prim 5)] \<and>
   reader 0 (fst (drip 4 held 0 (Prim 5))) = Prim 5 \<and>
   reader (fst (hold 0 (Prim 7) (snd (stream parrot initial))))
          (snd (hold 0 (Prim 7) (snd (stream parrot initial)))) = Prim 7"
proof -
  let ?st = "\<lparr>waiting = [], observers = [(Sample 1 0, Prim 5), (Record 2, Prim (5::int))],
          updates = [(0, Prim 5)]\<rparr>"
  let ?s1 = "held\<lparr>observerPhase := True, observed := [(1, Prim 7), (2, Prim 5)]\<rparr>"
  have h1: "\<not> observerPhase held"
    by (simp add: held_rest)
  have h2: "flowLazy 3 (nodes held) (cells held) (Prim 5) 0 = Inr ?st"
    by (simp add: held_nodes run cong: mapE_weak_cong)
  note t = drip_observers_before_updates [OF h1 h2, where rk = "\<lambda>n. 0"]
  have p1: "FlowingState.observers ?st = [] @ (Sample 1 0, Prim 5) # [(Record 2, Prim 5)] \<and>
            forEach (run_observer 3) [] (held\<lparr>observerPhase := True\<rparr>) = (held\<lparr>observerPhase := True\<rparr>, Inr ())"
    by simp
  note t1 = t [THEN conjunct1, rule_format, OF p1]
  have a: "run_observer 3 (Sample 1 0, Prim 5) (held\<lparr>observerPhase := True\<rparr>) =
     (held\<lparr>observerPhase := True, observed := [(1, Prim 7)]\<rparr>, Inr ())"
    using t1 [THEN conjunct2, rule_format, of 1 0] by (simp add: held_rest reader_def)
  have p2: "forEach (run_observer 3) (FlowingState.observers ?st) (held\<lparr>observerPhase := True\<rparr>) = (?s1, Inr ())"
    by (simp add: held_rest)
  note t2 = t [THEN conjunct2, THEN conjunct1, rule_format, OF p2]
  have b: "drip 4 held 0 (Prim 5) = (run_updates (FlowingState.updates ?st) (?s1\<lparr>observerPhase := False\<rparr>), Inr ?st)"
    using t2 [THEN conjunct2, THEN conjunct1] by simp
  have p3: "0 \<in> set (updates (nodes held 0)) \<and> (\<forall>m. m \<noteq> 0 \<longrightarrow> 0 \<notin> set (updates (nodes held m))) \<and>
            (\<forall>a b. b \<in> set (next (nodes held a)) \<union> set (lazyNext (nodes held a)) \<longrightarrow> (0::nat) < 0) \<and>
            STREAM_FUNCTOR (nodes held 0) (cells held) (Prim 5) = Inr (Prim 5) \<and>
            filterE (accepts (nodes held) (cells held) (Prim 5)) (next (nodes held 0)) = Inr [] \<and> (3::nat) \<le> 3"
    by (simp add: held_nodes parrot_def)
  have c: "reader 0 (fst (drip 4 held 0 (Prim 5))) = Prim 5"
    using t2 [THEN conjunct2, THEN conjunct2, rule_format, OF p3] by simp
  have d: "reader (fst (hold 0 (Prim 7) (snd (stream parrot initial))))
          (snd (hold 0 (Prim 7) (snd (stream parrot initial)))) = Prim 7"
    using t [THEN conjunct2, THEN conjunct2, rule_format, of "Prim 7" "snd (stream parrot initial)"] by blast
  show ?thesis
    using h1 h2 a c d by (simp add: b held_rest reader_def run_updates_keeps)
qed

section \<open>Error containment in \<open>flow\<close>\<close>

text \<open>
  C4. When the functor of a node \<open>n\<close> throws on the value \<open>r\<close> it receives, \<open>flow\<close> returns
  the empty flowing state for \<open>n\<close>. The parent \<open>p\<close> that passed \<open>r\<close> on (its functor
  returned \<open>r\<close> and no filter of its children threw) still returns its own contribution
  followed by the contributions of the other accepted children, in order; and in an acyclic
  graph this is the very result of the same call on the graph in which \<open>n\<close> is not a child
  of \<open>p\<close>.
\<close>

theorem flow_functor_error_voids_subtree:
  assumes "STREAM_FUNCTOR (h n) c r = Inl e"
  shows "flow (Suc d) h c r n = Inr emptyFlowingState \<and>
         (STREAM_FUNCTOR (h p) c v = Inr r \<and> filterE (accepts h c r) (next (h p)) = Inr ns \<longrightarrow>
            flow (Suc (Suc d)) h c v p =
              Inr (foldl concatFlowingState (streamToFlowingState r (h p))
                     (map (\<lambda>m. projr (flow (Suc d) h c r m)) (removeAll n ns))) \<and>
            ((\<forall>a b. b \<in> set (next (h a)) \<longrightarrow> rk b < (rk a :: nat)) \<longrightarrow>
               flow (Suc (Suc d)) h c v p =
               flow (Suc (Suc d)) (h(p := (h p)\<lparr>next := removeAll n (next (h p))\<rparr>)) c v p))"
proof (intro conjI impI)
  show e: "flow (Suc d) h c r n = Inr emptyFlowingState" using assms by simp
  assume a: "STREAM_FUNCTOR (h p) c v = Inr r \<and> filterE (accepts h c r) (next (h p)) = Inr ns"
  have "foldl concatFlowingState (streamToFlowingState r (h p)) (map (\<lambda>m. projr (flow (Suc d) h c r m)) ns)
      = foldl concatFlowingState (streamToFlowingState r (h p)) (map (\<lambda>m. projr (flow (Suc d) h c r m)) (filter (\<lambda>m. m \<noteq> n) ns))"
    by (rule foldl_concat_skip_empty) (use e in auto)
  with a show s: "flow (Suc (Suc d)) h c v p =
              Inr (foldl concatFlowingState (streamToFlowingState r (h p))
                     (map (\<lambda>m. projr (flow (Suc d) h c r m)) (removeAll n ns)))"
    using flow_step [of h p c v r ns d] by (simp add: removeAll_filter_not_eq eq_commute)
  assume rank: "\<forall>a b. b \<in> set (next (h a)) \<longrightarrow> rk b < rk a"
  let ?h' = "h(p := (h p)\<lparr>next := removeAll n (next (h p))\<rparr>)"
  have acc: "accepts ?h' c r = accepts h c r"
    by (rule ext) (simp add: accepts_def)
  have f': "filterE (accepts ?h' c r) (next (?h' p)) = Inr (removeAll n ns)"
    using a by (simp add: acc filterE_removeAll)
  have sub: "set (removeAll n ns) \<subseteq> set (next (h p))"
    using a filterE_subset by fastforce
  have m: "map (\<lambda>m. projr (flow (Suc d) ?h' c r m)) (removeAll n ns)
      = map (\<lambda>m. projr (flow (Suc d) h c r m)) (removeAll n ns)"
  proof (rule map_cong [OF refl])
    fix m assume "m \<in> set (removeAll n ns)"
    then have "rk m < rk p" using sub rank by blast
    then have "flow (Suc d) ?h' c r m = flow (Suc d) h c r m"
      by (intro flow_agree [where rk = rk and R = "rk p"]) (use rank in auto)
    then show "projr (flow (Suc d) ?h' c r m) = projr (flow (Suc d) h c r m)" by simp
  qed
  have f1: "flow (Suc (Suc d)) ?h' c v p =
     Inr (foldl concatFlowingState (streamToFlowingState r (?h' p))
                  (map (\<lambda>m. projr (flow (Suc d) ?h' c r m)) (removeAll n ns)))"
    by (rule flow_step) (use a f' in auto)
  have f2: "streamToFlowingState r (?h' p) = streamToFlowingState r (h p)"
    by (simp add: streamToFlowingState_def)
  show "flow (Suc (Suc d)) h c v p = flow (Suc (Suc d)) ?h' c v p"
    by (simp only: s f1 f2 m)
qed

theorem flow_functor_error_voids_subtree_witness:
  "STREAM_FUNCTOR (nodes throwing_child 1) (cells throwing_child) (Prim 5) = Inl (Error ''boom'') \<and>
   flow 1 (nodes throwing_child) (cells throwing_child) (Prim 5) 1 = Inr emptyFlowingState \<and>
   flow 2 (nodes throwing_child) (cells throwing_child) (Prim 5) 0 =
     Inr \<lparr>waiting = [], observers = [(Record 0, Prim 5), (Record 1, Prim 5)], updates = []\<rparr> \<and>
   flow 2 (nodes throwing_child) (cells throwing_child) (Prim 5) 0 =
   flow 2 ((nodes throwing_child)(0 := (nodes throwing_child 0)\<lparr>next := [2]\<rparr>))
     (cells throwing_child) (Prim 5) 0"
proof -
  have h: "STREAM_FUNCTOR (nodes throwing_child 1) (cells throwing_child) (Prim 5) = Inl (Error ''boom'')"
    by (simp add: throwing_child_nodes boom_def)
  have p: "STREAM_FUNCTOR (nodes throwing_child 0) (cells throwing_child) (Prim 5) = Inr (Prim 5) \<and>
           filterE (accepts (nodes throwing_child) (cells throwing_child) (Prim 5))
             (next (nodes throwing_child 0)) = Inr [1, 2]"
    by (simp add: throwing_child_nodes run)
  have r: "\<forall>a b. b \<in> set (next (nodes throwing_child a)) \<longrightarrow>
             (if b = 0 then 1 else 0::nat) < (if a = 0 then 1 else 0)"
    by (simp add: throwing_child_nodes)
  from flow_functor_error_voids_subtree
         [where h = "nodes throwing_child" and n = 1 and c = "cells throwing_child"
            and r = "Prim 5" and e = "Error ''boom''" and d = 0 and p = 0 and v = "Prim 5"
            and ns = "[1, 2]" and rk = "\<lambda>n. if n = 0 then 1 else 0", OF h] p r
  show ?thesis
    using h by (simp add: throwing_child_nodes boom_def run)
qed

text \<open>
  C10. The filters of the children run inside the \<open>try\<close> block of the parent. When the
  filter of some child \<open>k\<close> of \<open>n\<close> throws on the result \<open>r\<close> of the functor of \<open>n\<close>, the
  call of \<open>flow\<close> on \<open>n\<close> returns the empty flowing state: the observers, updates and merge
  targets of \<open>n\<close> itself and the subtrees of all its children are lost, not only the
  subtree behind the failing filter.
\<close>

theorem flow_filter_error_voids_node:
  assumes "STREAM_FUNCTOR (h n) c v = Inr r" and "k \<in> set (next (h n))"
    and "STREAM_FILTER (h k) = Some p" and "p c r = Inl e"
  shows "flow (Suc d) h c v n = Inr emptyFlowingState"
proof -
  have "accepts h c r k = Inl e" using assms by (simp add: accepts_def)
  then obtain e' where "filterE (accepts h c r) (next (h n)) = Inl e'"
    using filterE_throws [of k "next (h n)" "accepts h c r" e] assms(2) by auto
  with assms(1) show ?thesis by simp
qed

theorem flow_filter_error_voids_node_witness:
  "STREAM_FUNCTOR (nodes throwing_filter 0) (cells throwing_filter) (Prim 5) = Inr (Prim 5) \<and>
   2 \<in> set (next (nodes throwing_filter 0)) \<and>
   STREAM_FILTER (nodes throwing_filter 2) = Some (\<lambda>c v. Inl (Error ''boom'')) \<and>
   observers (nodes throwing_filter 0) = [Record 0] \<and>
   observers (nodes throwing_filter 1) = [Record 1] \<and>
   flow 2 (nodes throwing_filter) (cells throwing_filter) (Prim 5) 0 = Inr emptyFlowingState"
proof -
  have h1: "STREAM_FUNCTOR (nodes throwing_filter 0) (cells throwing_filter) (Prim 5) = Inr (Prim 5)"
    by (simp add: throwing_filter_nodes run)
  have h2: "2 \<in> set (next (nodes throwing_filter 0))"
    by (simp add: throwing_filter_nodes)
  have h3: "STREAM_FILTER (nodes throwing_filter 2) = Some (\<lambda>c v. Inl (Error ''boom''))"
    by (simp add: throwing_filter_nodes)
  have h4: "(\<lambda>c v. Inl (Error ''boom'') :: error + bool) (cells throwing_filter) (Prim 5 :: int val)
              = Inl (Error ''boom'')"
    by simp
  from flow_filter_error_voids_node
         [where h = "nodes throwing_filter" and n = 0 and c = "cells throwing_filter"
            and v = "Prim 5" and r = "Prim 5" and k = 2 and p = "\<lambda>c v. Inl (Error ''boom'')"
            and e = "Error ''boom''" and d = 1, OF h1 h2 h3 h4]
  show ?thesis
    using h1 h2 h3 by (simp add: throwing_filter_nodes eval_nat_numeral)
qed

section \<open>The functor of a merge node\<close>

text \<open>
  C7. The node built by \<open>merge(sources)(combine)\<close> passes a one-element array through
  unchanged, folds a longer array from the left with \<open>combine\<close>, and throws on the empty
  array.
\<close>

theorem merge_functor_folds:
  "STREAM_FUNCTOR (nodes (snd (merge ss f \<sigma>)) (fst (merge ss f \<sigma>))) c (Arr [x]) = Inr x \<and>
   STREAM_FUNCTOR (nodes (snd (merge ss (\<lambda>a b. Inr (g a b)) \<sigma>)) (fst (merge ss (\<lambda>a b. Inr (g a b)) \<sigma>))) c (Arr (x # xs))
     = Inr (foldl g x xs) \<and>
   STREAM_FUNCTOR (nodes (snd (merge ss f \<sigma>)) (fst (merge ss f \<sigma>))) c (Arr [])
     = Inl (Error ''No values have been merged yet.'')"
  by (simp add: merge_node_functor mergeFunctor_def reduce_total)

theorem merge_functor_folds_witness:
  "STREAM_FUNCTOR (nodes (snd (merge [] (\<lambda>a b. Inr (Arr [a, b])) initial))
                    (fst (merge [] (\<lambda>a b. Inr (Arr [a, b])) initial)))
     (cells initial) (Arr [Prim 1, Prim 2, Prim 3]) = Inr (Arr [Arr [Prim 1, Prim 2], Prim 3])"
  using merge_functor_folds [of "[]" "\<lambda>a b. Inr (Arr [a, b])" initial "cells initial" "Prim 1"
          "\<lambda>a b. Arr [a, b]" "[Prim 2, Prim 3]"]
  by simp

section \<open>Errors and reentrancy in \<open>drip\<close>\<close>

text \<open>
  C3. When the pure phase \<open>flowLazy(v)(s)\<close> of a call of \<open>drip\<close> throws, the handler of
  \<open>drip\<close> ends the call: it returns the empty flowing state and leaves the whole state as
  it was on entry, so the flag is false, nothing was observed and no cell was assigned.
\<close>

theorem drip_pure_phase_error_aborts:
  assumes "\<not> observerPhase \<sigma>" and "flowLazy d (nodes \<sigma>) (cells \<sigma>) v s = Inl e"
  shows "drip (Suc d) \<sigma> s v = (\<sigma>, Inr emptyFlowingState)"
  using assms by simp

theorem drip_pure_phase_error_aborts_witness:
  "\<not> observerPhase merge_chain \<and>
   flowLazy 3 (nodes merge_chain) (cells merge_chain) (Prim 1) 0 = Inl RangeError \<and>
   drip (Suc 3) merge_chain 0 (Prim 1) = (merge_chain, Inr emptyFlowingState)"
proof -
  have h1: "\<not> observerPhase merge_chain"
    by (simp add: merge_chain_rest)
  have h2: "flowLazy 3 (nodes merge_chain) (cells merge_chain) (Prim 1) 0 = Inl RangeError"
    by (simp add: merge_chain_nodes mergeFunctor_def run)
  from drip_pure_phase_error_aborts [OF h1 h2] h1 h2 show ?thesis
    by blast
qed

text \<open>
  C9. When an observer thunk throws during the observer phase, the thunks after it are not
  run, no update thunk is run, so every cell keeps its value, the flag is reset, and the
  call returns the empty flowing state instead of the computed one.
\<close>

theorem drip_observer_error_skips_updates:
  assumes "\<not> observerPhase \<sigma>"
    and "flowLazy d (nodes \<sigma>) (cells \<sigma>) v s = Inr st"
    and "forEach (run_observer d) (FlowingState.observers st) (\<sigma>\<lparr>observerPhase := True\<rparr>) = (\<sigma>1, Inl e)"
  shows "drip (Suc d) \<sigma> s v = (\<sigma>1\<lparr>observerPhase := False\<rparr>, Inr emptyFlowingState) \<and>
         cells \<sigma>1 = cells \<sigma> \<and>
         (\<exists>pre t post \<sigma>0. FlowingState.observers st = pre @ t # post \<and>
            forEach (run_observer d) pre (\<sigma>\<lparr>observerPhase := True\<rparr>) = (\<sigma>0, Inr ()) \<and>
            run_observer d t \<sigma>0 = (\<sigma>1, Inl e))"
proof (intro conjI)
  show "drip (Suc d) \<sigma> s v = (\<sigma>1\<lparr>observerPhase := False\<rparr>, Inr emptyFlowingState)"
    using assms by simp
  show "cells \<sigma>1 = cells \<sigma>"
    using forEach_guarded [OF _ assms(3)] by simp
  show "\<exists>pre t post \<sigma>0. FlowingState.observers st = pre @ t # post \<and>
            forEach (run_observer d) pre (\<sigma>\<lparr>observerPhase := True\<rparr>) = (\<sigma>0, Inr ()) \<and>
            run_observer d t \<sigma>0 = (\<sigma>1, Inl e)"
    using forEach_throw_split [OF assms(3)] .
qed

theorem drip_observer_error_skips_updates_witness:
  "\<not> observerPhase throwing_observer \<and>
   flowLazy 2 (nodes throwing_observer) (cells throwing_observer) (Prim 5) 0 =
     Inr \<lparr>waiting = [],
          observers = [(Record 1, Prim 5), (Raise (Error ''boom''), Prim 5), (Record 2, Prim 5)],
          updates = [(0, Prim 5)]\<rparr> \<and>
   drip 3 throwing_observer 0 (Prim 5) =
     (throwing_observer\<lparr>observerPhase := False, observed := [(1, Prim 5)]\<rparr>, Inr emptyFlowingState) \<and>
   cells throwing_observer 0 = Prim 0"
proof -
  let ?st = "\<lparr>waiting = [],
          observers = [(Record 1, Prim 5), (Raise (Error ''boom''), Prim 5), (Record 2, Prim 5)],
          updates = [(0, Prim 5 :: int val)]\<rparr>"
  have h1: "\<not> observerPhase throwing_observer"
    by (simp add: throwing_observer_rest)
  have h2: "flowLazy 2 (nodes throwing_observer) (cells throwing_observer) (Prim 5) 0 = Inr ?st"
    by (simp add: throwing_observer_nodes run)
  have h3: "forEach (run_observer 2) (FlowingState.observers ?st)
              (throwing_observer\<lparr>observerPhase := True\<rparr>) =
            (throwing_observer\<lparr>observerPhase := True, observed := [(1, Prim 5)]\<rparr>, Inl (Error ''boom''))"
    by (simp add: throwing_observer_rest)
  from drip_observer_error_skips_updates [OF h1 h2 h3] h1 h2 show ?thesis
    by (simp add: throwing_observer_rest eval_nat_numeral del: drip.simps flowLazy.simps)
qed

text \<open>
  C5. A call of \<open>drip\<close> made while the flag is set throws at once and changes nothing. The
  flag is set whenever an observer thunk runs, so an observer that injects into any stream
  makes the inner call throw; the outer call then ends with the empty flowing state. The
  outer call always returns with the flag reset, and a later call of \<open>drip\<close> is not
  rejected.
\<close>

theorem drip_reentrancy_rejected:
  fixes \<sigma> :: "'a state"
  assumes "\<not> observerPhase \<sigma>"
  shows "(\<forall>(\<tau> :: 'a state) n w. observerPhase \<tau> \<longrightarrow>
            drip (Suc k) \<tau> n w = (\<tau>, Inl (Error ''drip cannot be called during observer phase''))) \<and>
         (\<forall>st pre n w x post \<sigma>0.
            flowLazy (Suc d) (nodes \<sigma>) (cells \<sigma>) v s = Inr st \<and>
            FlowingState.observers st = pre @ (Inject n w, x) # post \<and>
            forEach (run_observer (Suc d)) pre (\<sigma>\<lparr>observerPhase := True\<rparr>) = (\<sigma>0, Inr ()) \<longrightarrow>
              run_observer (Suc d) (Inject n w, x) \<sigma>0 =
                (\<sigma>0, Inl (Error ''drip cannot be called during observer phase'')) \<and>
              drip (Suc (Suc d)) \<sigma> s v = (\<sigma>0\<lparr>observerPhase := False\<rparr>, Inr emptyFlowingState)) \<and>
         \<not> observerPhase (fst (drip (Suc (Suc d)) \<sigma> s v)) \<and>
         (\<exists>r. snd (drip (Suc (Suc d)) \<sigma> s v) = Inr r) \<and>
         (\<exists>r. snd (drip (Suc k) (fst (drip (Suc (Suc d)) \<sigma> s v)) s' v') = Inr r)"
proof (intro conjI allI impI)
  fix \<tau> :: "'a state" and n w
  assume "observerPhase \<tau>"
  then show "drip (Suc k) \<tau> n w = (\<tau>, Inl (Error ''drip cannot be called during observer phase''))"
    by simp
next
  fix st pre n w x post \<sigma>0
  assume a: "flowLazy (Suc d) (nodes \<sigma>) (cells \<sigma>) v s = Inr st \<and>
            FlowingState.observers st = pre @ (Inject n w, x) # post \<and>
            forEach (run_observer (Suc d)) pre (\<sigma>\<lparr>observerPhase := True\<rparr>) = (\<sigma>0, Inr ())"
  then have g: "observerPhase \<sigma>0"
    using forEach_guarded [of "\<sigma>\<lparr>observerPhase := True\<rparr>" "Suc d" pre \<sigma>0 "Inr ()"] by simp
  then show r: "run_observer (Suc d) (Inject n w, x) \<sigma>0 =
                (\<sigma>0, Inl (Error ''drip cannot be called during observer phase''))"
    by simp
  have "forEach (run_observer (Suc d)) (FlowingState.observers st) (\<sigma>\<lparr>observerPhase := True\<rparr>)
          = (\<sigma>0, Inl (Error ''drip cannot be called during observer phase''))"
    using a r by (simp add: forEach_append del: run_observer.simps drip.simps)
  with a assms show "drip (Suc (Suc d)) \<sigma> s v = (\<sigma>0\<lparr>observerPhase := False\<rparr>, Inr emptyFlowingState)"
    by (simp del: run_observer.simps flowLazy.simps)
next
  show "\<not> observerPhase (fst (drip (Suc (Suc d)) \<sigma> s v))"
    using drip_unguarded_returns [OF assms] by blast
  show "\<exists>r. snd (drip (Suc (Suc d)) \<sigma> s v) = Inr r"
    using drip_unguarded_returns [OF assms] by blast
  have "\<not> observerPhase (fst (drip (Suc (Suc d)) \<sigma> s v))"
    using drip_unguarded_returns [OF assms] by blast
  then show "\<exists>r. snd (drip (Suc k) (fst (drip (Suc (Suc d)) \<sigma> s v)) s' v') = Inr r"
    using drip_unguarded_returns by blast
qed

theorem drip_reentrancy_rejected_witness:
  "\<not> observerPhase reentrant_observer \<and>
   flowLazy 2 (nodes reentrant_observer) (cells reentrant_observer) (Prim 5) 0 =
     Inr \<lparr>waiting = [],
          observers = [(Record 1, Prim 5), (Inject 1 (Prim 9), Prim 5), (Record 2, Prim 5)],
          updates = []\<rparr> \<and>
   run_observer 2 (Inject 1 (Prim 9), Prim 5)
     (reentrant_observer\<lparr>observerPhase := True, observed := [(1, Prim 5)]\<rparr>) =
     (reentrant_observer\<lparr>observerPhase := True, observed := [(1, Prim 5)]\<rparr>,
      Inl (Error ''drip cannot be called during observer phase'')) \<and>
   drip 3 reentrant_observer 0 (Prim 5) =
     (reentrant_observer\<lparr>observerPhase := False, observed := [(1, Prim 5)]\<rparr>, Inr emptyFlowingState) \<and>
   (\<exists>r. snd (drip 3 (fst (drip 3 reentrant_observer 0 (Prim 5))) 1 (Prim 6)) = Inr r)"
proof -
  let ?st = "\<lparr>waiting = [],
          observers = [(Record 1, Prim 5), (Inject 1 (Prim 9), Prim 5), (Record 2, Prim 5 :: int val)],
          updates = []\<rparr>"
  let ?s0 = "reentrant_observer\<lparr>observerPhase := True, observed := [(1, Prim 5)]\<rparr>"
  have h1: "\<not> observerPhase reentrant_observer"
    by (simp add: reentrant_observer_rest)
  have h2: "flowLazy (Suc 1) (nodes reentrant_observer) (cells reentrant_observer) (Prim 5) 0 = Inr ?st"
    by (simp add: reentrant_observer_nodes run)
  have h3: "FlowingState.observers ?st = [(Record 1, Prim 5)] @ (Inject 1 (Prim 9), Prim 5) # [(Record 2, Prim 5)]"
    by simp
  have h4: "forEach (run_observer (Suc 1)) [(Record 1, Prim 5)] (reentrant_observer\<lparr>observerPhase := True\<rparr>)
              = (?s0, Inr ())"
    by (simp add: reentrant_observer_rest)
  note t = drip_reentrancy_rejected [OF h1, where k = 2 and d = 1 and v = "Prim 5" and s = 0
             and s' = 1 and v' = "Prim 6"]
  from t have a: "run_observer (Suc 1) (Inject 1 (Prim 9), Prim 5) ?s0 =
                (?s0, Inl (Error ''drip cannot be called during observer phase'')) \<and>
              drip (Suc (Suc 1)) reentrant_observer 0 (Prim 5) = (?s0\<lparr>observerPhase := False\<rparr>, Inr emptyFlowingState)"
    using h2 h3 h4 by blast
  from t have b: "\<exists>r. snd (drip (Suc 2) (fst (drip (Suc (Suc 1)) reentrant_observer 0 (Prim 5))) 1 (Prim 6)) = Inr r"
    by blast
  have n: "(3::nat) = Suc (Suc 1)" "(3::nat) = Suc 2" "(2::nat) = Suc 1" by simp_all
  show ?thesis
    using h1 h2 a b by (simp only: n) simp
qed

section \<open>The grouping done by \<open>flowLazy\<close>\<close>

text \<open>
  C2, as stated, says that a merge node receives all values of one propagation in a single
  array and that its functor runs exactly once, also when the node is reached through
  other merge nodes. In \<open>chained_merges\<close> the stream \<open>s\<close> feeds the merge nodes \<open>m1\<close> and
  \<open>m2\<close>, which both feed the merge node \<open>m3\<close>. One injection of \<open>1\<close> into \<open>s\<close> reaches \<open>m3\<close>
  twice; applied once to both values its functor would give \<open>2\<close>, but the observer of \<open>m3\<close>
  is bound twice, each time to the value \<open>1\<close> of a one-element array.
\<close>

theorem flowLazy_chained_merges_counterexample:
  "flowLazy 5 (nodes chained_merges) (cells chained_merges) (Prim 1) 0 =
     Inr \<lparr>waiting = [], observers = [(Record 7, Prim 1), (Record 7, Prim 1)], updates = []\<rparr> \<and>
   STREAM_FUNCTOR (nodes chained_merges 3) (cells chained_merges) (Arr [Prim 1, Prim 1]) = Inr (Prim 2)"
  by (simp add: chained_merges_at mergeFunctor_def add_def run cong: mapE_weak_cong)

text \<open>
  C2, amended. Within one call of \<open>flowLazy\<close> the pending pairs of that call's \<open>flow\<close> are
  grouped by target: the targets are distinct and in order of first arrival, and each
  target has the values that arrived for it, a non-empty list in arrival order.
  \<open>flowLazy\<close> is called once for each target, with that array. When no target passes
  values on to a further merge node, the result is the thunks of \<open>flow\<close> followed by the
  flowing state of each target, whose functor is thus applied once, to all values that
  reached the target. Pairs that arise inside the nested calls are grouped there, call
  by call.
\<close>

theorem flowLazy_groups_per_call:
  assumes "flow (Suc d) h c v s = Inr r" and "waiting r \<noteq> []"
  shows "map fst (grouping (waiting r)) = rev (remdups (rev (map fst (waiting r)))) \<and>
         (\<forall>m vs. (m, vs) \<in> set (grouping (waiting r)) \<longrightarrow>
            vs = map snd (filter (\<lambda>p. fst p = m) (waiting r)) \<and> vs \<noteq> []) \<and>
         flowLazy (Suc (Suc d)) h c v s =
           (case mapE (\<lambda>(m, vs). flowLazy (Suc d) h c (Arr vs) m) (grouping (waiting r)) of
              Inl e \<Rightarrow> Inl e
            | Inr fs \<Rightarrow> Inr (foldl concatFlowingState
                              \<lparr>waiting = [], observers = FlowingState.observers r,
                               updates = FlowingState.updates r\<rparr> fs)) \<and>
         ((\<forall>m vs. (m, vs) \<in> set (grouping (waiting r)) \<longrightarrow>
             waiting (projr (flow (Suc k) h c (Arr vs) m)) = []) \<and> d = Suc k \<longrightarrow>
          flowLazy (Suc (Suc d)) h c v s =
            Inr (foldl concatFlowingState
                   \<lparr>waiting = [], observers = FlowingState.observers r,
                    updates = FlowingState.updates r\<rparr>
                   (map (\<lambda>(m, vs). projr (flow (Suc k) h c (Arr vs) m)) (grouping (waiting r)))))"
proof (intro conjI impI allI)
  show "map fst (grouping (waiting r)) = rev (remdups (rev (map fst (waiting r))))"
    by (rule grouping_keys)
next
  fix m vs assume "(m, vs) \<in> set (grouping (waiting r))"
  then show "vs = map snd (filter (\<lambda>p. fst p = m) (waiting r))" and "vs \<noteq> []"
    using grouping_values by blast+
next
  show u: "flowLazy (Suc (Suc d)) h c v s =
           (case mapE (\<lambda>(m, vs). flowLazy (Suc d) h c (Arr vs) m) (grouping (waiting r)) of
              Inl e \<Rightarrow> Inl e
            | Inr fs \<Rightarrow> Inr (foldl concatFlowingState
                              \<lparr>waiting = [], observers = FlowingState.observers r,
                               updates = FlowingState.updates r\<rparr> fs))"
    using assms by (rule flowLazy_unfold)
  assume a: "(\<forall>m vs. (m, vs) \<in> set (grouping (waiting r)) \<longrightarrow>
             waiting (projr (flow (Suc k) h c (Arr vs) m)) = []) \<and> d = Suc k"
  have "mapE (\<lambda>(m, vs). flowLazy (Suc d) h c (Arr vs) m) (grouping (waiting r)) =
        Inr (map (\<lambda>(m, vs). projr (flow (Suc k) h c (Arr vs) m)) (grouping (waiting r)))"
  proof (rule mapE_Inr_map)
    fix x assume x: "x \<in> set (grouping (waiting r))"
    obtain m vs where mv: "x = (m, vs)" by (cases x)
    with x a have "waiting (projr (flow (Suc k) h c (Arr vs) m)) = []" by blast
    then have "flowLazy (Suc (Suc k)) h c (Arr vs) m = Inr (projr (flow (Suc k) h c (Arr vs) m))"
      by (rule flowLazy_leaf)
    with a mv show "(case x of (m, vs) \<Rightarrow> flowLazy (Suc d) h c (Arr vs) m) =
             Inr (case x of (m, vs) \<Rightarrow> projr (flow (Suc k) h c (Arr vs) m))"
      by (simp del: flowLazy.simps flow.simps)
  qed
  with u show "flowLazy (Suc (Suc d)) h c v s =
            Inr (foldl concatFlowingState
                   \<lparr>waiting = [], observers = FlowingState.observers r,
                    updates = FlowingState.updates r\<rparr>
                   (map (\<lambda>(m, vs). projr (flow (Suc k) h c (Arr vs) m)) (grouping (waiting r))))"
    by (simp del: flowLazy.simps flow.simps)
qed


theorem flowLazy_groups_per_call_witness:
  "flow 3 (nodes diamond_merge) (cells diamond_merge) (Prim 1) 0 =
     Inr \<lparr>waiting = [(3, Prim 1), (3, Arr [Prim 1])], observers = [], updates = []\<rparr> \<and>
   grouping [(3, Prim 1), (3, Arr [Prim (1 :: int)])] = [(3, [Prim 1, Arr [Prim 1]])] \<and>
   flowLazy 4 (nodes diamond_merge) (cells diamond_merge) (Prim 1) 0 =
     Inr \<lparr>waiting = [], observers = [(Record 7, Arr [Prim 1, Arr [Prim 1]])], updates = []\<rparr>"
proof -
  let ?r = "\<lparr>waiting = [(3, Prim 1), (3, Arr [Prim (1 :: int)])], observers = [], updates = []\<rparr>"
  have h1: "flow (Suc 2) (nodes diamond_merge) (cells diamond_merge) (Prim 1) 0 = Inr ?r"
    by (simp add: diamond_merge_at wrap_def run cong: mapE_weak_cong)
  have h2: "waiting ?r \<noteq> []"
    by simp
  have g: "grouping [(3, Prim 1), (3, Arr [Prim (1 :: int)])] = [(3, [Prim 1, Arr [Prim 1]])]"
    by (simp add: run)
  have h3: "(\<forall>m vs. (m, vs) \<in> set (grouping (waiting ?r)) \<longrightarrow>
               waiting (projr (flow (Suc 1) (nodes diamond_merge) (cells diamond_merge) (Arr vs) m)) = []) \<and>
            (2::nat) = Suc 1"
    by (simp add: g diamond_merge_at mergeFunctor_def pair_def run cong: mapE_weak_cong)
  from flowLazy_groups_per_call [OF h1 h2, where k = 1] h3
  have "flowLazy (Suc (Suc 2)) (nodes diamond_merge) (cells diamond_merge) (Prim 1) 0 =
            Inr (foldl concatFlowingState
                   \<lparr>waiting = [], observers = FlowingState.observers ?r,
                    updates = FlowingState.updates ?r\<rparr>
                   (map (\<lambda>(m, vs). projr (flow (Suc 1) (nodes diamond_merge) (cells diamond_merge) (Arr vs) m))
                      (grouping (waiting ?r))))"
    by blast
  then have "flowLazy 4 (nodes diamond_merge) (cells diamond_merge) (Prim 1) 0 =
     Inr \<lparr>waiting = [], observers = [(Record 7, Arr [Prim 1, Arr [Prim 1]])], updates = []\<rparr>"
    by (simp add: g diamond_merge_at mergeFunctor_def pair_def run del: flowLazy.simps flowLazy_numeral cong: mapE_weak_cong)
  with h1 g show ?thesis
    by (simp add: eval_nat_numeral del: flow.simps flowLazy.simps)
qed

section \<open>Teardown with \<open>clear\<close>\<close>

text \<open>
  C6, as stated, has \<open>clear(n)\<close> empty every node reachable along \<open>next\<close> or \<open>lazyNext\<close>
  edges. In \<open>lazy_clear\<close> the stream \<open>s\<close> has the merge node \<open>m\<close> in its \<open>lazyNext\<close> set.
  After \<open>clear(s)\<close> the node \<open>m\<close> still has its observer, and an injection into \<open>m\<close>
  yields a flowing state that is not empty.
\<close>

theorem clear_skips_merge_nodes_counterexample:
  "lazyNext (nodes lazy_clear 0) = [2] \<and>
   snd (clear 3 0 (nodes lazy_clear)) = Inr () \<and>
   observers (fst (clear 3 0 (nodes lazy_clear)) 2) = [Record 2] \<and>
   snd (drip 3 (lazy_clear\<lparr>nodes := fst (clear 3 0 (nodes lazy_clear))\<rparr>) 2 (Arr [Prim 1])) =
     Inr \<lparr>waiting = [], observers = [(Record 2, Prim 1)], updates = []\<rparr>"
  by (simp add: lazy_clear_cleared lazy_clear_at lazy_clear_rest mergeFunctor_def run
        cong: mapE_weak_cong)

text \<open>
  C6, amended. When \<open>clear(n)\<close> returns, every node reachable from \<open>n\<close> along \<open>next\<close> edges,
  \<open>n\<close> included, has empty \<open>next\<close>, \<open>lazyNext\<close>, \<open>updates\<close> and \<open>observers\<close> sets, and an
  injection into such a node returns the empty flowing state and changes nothing. Every
  other node is as it was, so a parent of \<open>n\<close> keeps \<open>n\<close> in its edge sets, and a merge
  node reached only through \<open>lazyNext\<close> keeps its observers. On a graph whose \<open>next\<close> edges
  are acyclic \<open>clear(n)\<close> returns, given a call stack deeper than the graph.
\<close>

theorem clear_empties_next_descendants:
  fixes h :: "'a heap"
  shows "(clear d n h = (h', Inr ()) \<longrightarrow>
           (\<forall>m \<in> descendants h n.
              next (h' m) = [] \<and> lazyNext (h' m) = [] \<and> updates (h' m) = [] \<and> observers (h' m) = [] \<and>
              (\<forall>(\<sigma> :: 'a state) k v. nodes \<sigma> = h' \<and> \<not> observerPhase \<sigma> \<longrightarrow>
                 drip (Suc (Suc (Suc k))) \<sigma> m v = (\<sigma>, Inr emptyFlowingState))) \<and>
           (\<forall>m. m \<notin> descendants h n \<longrightarrow> h' m = h m)) \<and>
         ((\<forall>a b. b \<in> set (next (h a)) \<longrightarrow> rk b < (rk a :: nat)) \<and> rk n < d \<longrightarrow>
            snd (clear d n h) = Inr ())"
proof (intro conjI impI ballI allI)
  fix m assume c: "clear d n h = (h', Inr ())" and m: "m \<in> descendants h n"
  have h': "h' = clr (descendants h n) h" using c by (rule clear_result)
  with m show e: "next (h' m) = []" "lazyNext (h' m) = []" "updates (h' m) = []" "observers (h' m) = []"
    by (simp_all add: clr_def cleared_def)
  fix \<sigma> :: "'a state" and k v
  assume "nodes \<sigma> = h' \<and> \<not> observerPhase \<sigma>"
  with e show "drip (Suc (Suc (Suc k))) \<sigma> m v = (\<sigma>, Inr emptyFlowingState)"
    using drip_inert [of \<sigma> m k v] by simp
next
  fix m assume c: "clear d n h = (h', Inr ())" and m: "m \<notin> descendants h n"
  have "h' = clr (descendants h n) h" using c by (rule clear_result)
  with m show "h' m = h m" by (simp add: clr_def)
next
  assume "(\<forall>a b. b \<in> set (next (h a)) \<longrightarrow> rk b < rk a) \<and> rk n < d"
  then show "snd (clear d n h) = Inr ()" using clear_returns by blast
qed

theorem clear_empties_next_descendants_witness:
  "clear 3 0 (nodes lazy_clear) = (fst (clear 3 0 (nodes lazy_clear)), Inr ()) \<and>
   1 \<in> descendants (nodes lazy_clear) 0 \<and>
   observers (nodes lazy_clear 1) = [Record 1] \<and> updates (nodes lazy_clear 1) = [0] \<and>
   observers (fst (clear 3 0 (nodes lazy_clear)) 1) = [] \<and>
   updates (fst (clear 3 0 (nodes lazy_clear)) 1) = [] \<and>
   drip 3 (lazy_clear\<lparr>nodes := fst (clear 3 0 (nodes lazy_clear))\<rparr>) 1 (Prim 5) =
     (lazy_clear\<lparr>nodes := fst (clear 3 0 (nodes lazy_clear))\<rparr>, Inr emptyFlowingState) \<and>
   2 \<notin> descendants (nodes lazy_clear) 0 \<and>
   fst (clear 3 0 (nodes lazy_clear)) 2 = nodes lazy_clear 2 \<and>
   snd (clear 3 0 (nodes lazy_clear)) = Inr ()"
proof -
  let ?h = "nodes lazy_clear"
  let ?h' = "fst (clear 3 0 (nodes lazy_clear))"
  let ?\<sigma> = "lazy_clear\<lparr>nodes := ?h'\<rparr>"
  have c: "clear 3 0 ?h = (?h', Inr ())"
    by (simp add: lazy_clear_cleared)
  have d1: "1 \<in> descendants ?h 0" and d2: "2 \<notin> descendants ?h 0"
    by (simp_all add: lazy_clear_descendants)
  have s: "nodes ?\<sigma> = ?h' \<and> \<not> observerPhase ?\<sigma>"
    by (simp add: lazy_clear_rest)
  have r: "(\<forall>a b. b \<in> set (next (?h a)) \<longrightarrow> (if b = 0 then 1 else 0::nat) < (if a = 0 then 1 else 0)) \<and>
           (if (0::nat) = 0 then 1 else 0::nat) < 3"
    by (simp add: lazy_clear_nodes)
  note t = clear_empties_next_descendants [where d = 3 and n = 0 and h = ?h and h' = ?h' and rk = "\<lambda>n. if n = 0 then 1 else 0"]
  from t c d1 have a: "observers (?h' 1) = [] \<and> updates (?h' 1) = []" by blast
  from t c d1 s have b: "drip (Suc (Suc (Suc 0))) ?\<sigma> 1 (Prim 5) = (?\<sigma>, Inr emptyFlowingState)" by blast
  from t c d2 have e: "?h' 2 = ?h 2" by blast
  from t r have f: "snd (clear 3 0 ?h) = Inr ()" by blast
  have n: "(3::nat) = Suc (Suc (Suc 0))" by simp
  show ?thesis
    using c d1 d2 a b e f by (simp add: lazy_clear_nodes n del: drip.simps clear.simps)
qed

section \<open>Switching with \<open>shed\<close>\<close>




end
